theory Spec2Isabelle
  imports Main "HOL-Library.AList"
begin

section \<open>Strings and the sentinel\<close>

text \<open>
  Python strings are modelled as lists of characters with code points below 256.
  \<open>str.strip()\<close> without arguments removes leading and trailing characters for which
  \<open>str.isspace()\<close> holds; below 256 these are the code points
  9 to 13, 28 to 32, 133 and 160.
\<close>

definition isspace :: "char \<Rightarrow> bool" where
  "isspace c = ((of_char c :: nat) \<in> {9, 10, 11, 12, 13, 28, 29, 30, 31, 32, 133, 160})"

definition strip :: "string \<Rightarrow> string" where
  "strip s = rev (dropWhile isspace (rev (dropWhile isspace s)))"

definition NA :: string where
  "NA = ''N/A''"

section \<open>Row extraction (\<open>extract_data_from_row\<close>, lines 5 to 26)\<close>

text \<open>
  A Playwright locator is modelled by what its two probes answer when the extractor calls
  them: \<open>is_visible()\<close> answers a boolean (\<open>False\<close> also when no element matches) or
  raises; \<open>text_content()\<close> answers a string, \<open>None\<close>, or raises.
\<close>

datatype exn = PlaywrightError | AttributeError | KeyError | JSONDecodeError | OSError | TypeError

record locator =
  is_visible :: "exn + bool"
  text_content :: "exn + string option"

text \<open>
  The row handle: what \<open>count()\<close> of \<open>a[href*='/chain/']\<close> inside the row answers
  (a number, or it raises) and the three cells addressed by \<open>div:nth-child(1) a\<close>,
  \<open>div:nth-child(2)\<close> and \<open>div:nth-child(7)\<close>.
\<close>

record row_locator =
  chain_link_count :: "exn + nat"
  name_element :: locator
  protocols_element :: locator
  tvl_element :: locator

record chain_data =
  Name :: string
  Protocols :: string
  TVL :: string

text \<open>
  Lines 8-9, 12-13 and 16-17 share one shape:
  \<open>x = await e.text_content() if await e.is_visible() else "N/A"; x = x.strip()\<close>.
  The visibility probe runs first; \<open>None.strip()\<close> raises \<open>AttributeError\<close>.
\<close>

definition read_cell :: "locator \<Rightarrow> exn + string" where
  "read_cell e =
     (case is_visible e of
        Inl ex \<Rightarrow> Inl ex
      | Inr vis \<Rightarrow>
          (if vis then
             (case text_content e of
                Inl ex \<Rightarrow> Inl ex
              | Inr None \<Rightarrow> Inl AttributeError
              | Inr (Some t) \<Rightarrow> Inr (strip t))
           else Inr (strip NA)))"

text \<open>
  Any exception inside the \<open>try\<close> block is logged and the function returns \<open>None\<close>.
\<close>

definition extract_data_from_row :: "row_locator \<Rightarrow> chain_data option" where
  "extract_data_from_row row_loc =
     (case read_cell (name_element row_loc) of
        Inl ex \<Rightarrow> None
      | Inr name \<Rightarrow>
          (case read_cell (protocols_element row_loc) of
             Inl ex \<Rightarrow> None
           | Inr protocols \<Rightarrow>
               (case read_cell (tvl_element row_loc) of
                  Inl ex \<Rightarrow> None
                | Inr tvl \<Rightarrow> Some \<lparr>Name = name, Protocols = protocols, TVL = tvl\<rparr>)))"

section \<open>The scrape run (\<open>scrape_data\<close>, lines 29 to 77)\<close>

text \<open>
  What the page answers during one pass of the \<open>while\<close> loop: the rows enumerated at
  lines 50-51 (or the exception raised there), the value of \<open>window.scrollY\<close> read at
  line 66 after the wheel call of line 64 (or the exception raised by either), and the
  values \<open>document.body.scrollHeight\<close> and \<open>window.innerHeight\<close> have in the page at
  that time. The same record describes the page before the loop.
\<close>

record page_reading =
  visible_rows :: "exn + row_locator list"
  scrollY :: "exn + int"
  scrollHeight :: int
  innerHeight :: int

text \<open>
  The browser as the run meets it: the page after launch and navigation (or the exception
  raised on the way), the readings of the successive loop passes, and the outcome of
  \<open>browser.close()\<close>.
\<close>

record browser =
  startup :: "exn + page_reading"
  readings :: "nat \<Rightarrow> page_reading"
  close :: "exn + unit"

record datetime =
  year :: nat
  month :: nat
  day :: nat
  hour :: nat
  minute :: nat
  second :: nat

definition digit :: "nat \<Rightarrow> char" where
  "digit d = ''0123456789'' ! (d mod 10)"

definition pad2 :: "nat \<Rightarrow> string" where
  "pad2 n = [digit (n div 10), digit n]"

definition pad4 :: "nat \<Rightarrow> string" where
  "pad4 n = [digit (n div 1000), digit (n div 100), digit (n div 10), digit n]"

text \<open>
  \<open>strftime("%Y-%m-%d %H:%M:%S")\<close>. The year of a \<open>datetime\<close> runs from 1 to 9999 and
  \<open>%Y\<close> prints it in decimal without padding, so only a year from 1000 on gives four
  digits. The other fields of a \<open>datetime\<close> are below 100 and are printed as two digits.
\<close>

text \<open>The values the fields of a Python \<open>datetime\<close> can hold.\<close>

definition valid_datetime :: "datetime \<Rightarrow> bool" where
  "valid_datetime t \<longleftrightarrow>
     1 \<le> year t \<and> year t \<le> 9999 \<and> 1 \<le> month t \<and> month t \<le> 12 \<and>
     1 \<le> day t \<and> day t \<le> 31 \<and> hour t \<le> 23 \<and> minute t \<le> 59 \<and> second t \<le> 59"

definition year_digits :: "nat \<Rightarrow> string" where
  "year_digits y =
     (if y < 10 then [digit y]
      else if y < 100 then [digit (y div 10), digit y]
      else if y < 1000 then [digit (y div 100), digit (y div 10), digit y]
      else pad4 y)"

definition strftime :: "datetime \<Rightarrow> string" where
  "strftime t =
     year_digits (year t) @ ''-'' @ pad2 (month t) @ ''-'' @ pad2 (day t) @ '' '' @
     pad2 (hour t) @ '':'' @ pad2 (minute t) @ '':'' @ pad2 (second t)"

text \<open>
  The local variables of \<open>scrape_data\<close>, and the list of \<open>delta_y\<close> values of the
  \<open>page.mouse.wheel\<close> calls issued so far. \<open>scraped_data\<close> is the nested dictionary
  \<open>{date: {"data_list": [...]}}\<close>, kept as association lists.
\<close>

type_synonym scraped = "(string \<times> (string \<times> chain_data list) list) list"

record run_state =
  distance :: int
  page_height :: int
  window_height :: int
  date :: string
  scraped_data :: scraped
  unique_names :: "string set"
  attempt :: int
  wheel_log :: "int list"

text \<open>Lines 35 to 47.\<close>

definition initial_state :: "datetime \<Rightarrow> page_reading \<Rightarrow> run_state" where
  "initial_state now pg =
     \<lparr>distance = 500,
      page_height = scrollHeight pg,
      window_height = innerHeight pg,
      date = ''Scraping at'' @ strftime now,
      scraped_data = [(''Scraping at'' @ strftime now, [(''data_list'', [])])],
      unique_names = {},
      attempt = 3,
      wheel_log = [50 * 6]\<rparr>"

text \<open>
  \<open>scraped_data[date]["data_list"].append(chain_data)\<close>: each subscript raises
  \<open>KeyError\<close> on a missing key.
\<close>

definition data_list_append :: "string \<Rightarrow> chain_data \<Rightarrow> scraped \<Rightarrow> exn + scraped" where
  "data_list_append d c sd =
     (case map_of sd d of
        None \<Rightarrow> Inl KeyError
      | Some inner \<Rightarrow>
          (case map_of inner ''data_list'' of
             None \<Rightarrow> Inl KeyError
           | Some rows \<Rightarrow>
               Inr (AList.update d (AList.update ''data_list'' (rows @ [c]) inner) sd)))"

text \<open>Lines 58 to 62: the admission of one extraction result.\<close>

definition offer :: "chain_data option \<Rightarrow> run_state \<Rightarrow> exn + run_state" where
  "offer chain s =
     (case chain of
        None \<Rightarrow> Inr s
      | Some c \<Rightarrow>
          (if Name c \<noteq> NA then
             (if Name c \<notin> unique_names s then
                (case data_list_append (date s) c (scraped_data s) of
                   Inl ex \<Rightarrow> Inl ex
                 | Inr sd \<Rightarrow>
                     Inr (s\<lparr>unique_names := insert (Name c) (unique_names s),
                            scraped_data := sd\<rparr>))
              else Inr s)
           else Inr s))"

text \<open>Lines 54 to 62: one pass of the \<open>for\<close> loop.\<close>

definition process_row :: "row_locator \<Rightarrow> run_state \<Rightarrow> exn + run_state" where
  "process_row row_loc s =
     (case chain_link_count row_loc of
        Inl ex \<Rightarrow> Inl ex
      | Inr n \<Rightarrow> (if n > 0 then offer (extract_data_from_row row_loc) s else Inr s))"

fun process_rows :: "row_locator list \<Rightarrow> run_state \<Rightarrow> exn + run_state" where
  "process_rows [] s = Inr s"
| "process_rows (r # rs) s =
     (case process_row r s of Inl ex \<Rightarrow> Inl ex | Inr s' \<Rightarrow> process_rows rs s')"

text \<open>
  One pass of the \<open>while\<close> loop (lines 50 to 73) either raises, leaves the loop by
  \<open>break\<close>, or goes on to the next pass.
\<close>

datatype outcome = Raised exn | Break run_state | Continue run_state

definition loop_body :: "page_reading \<Rightarrow> run_state \<Rightarrow> outcome" where
  "loop_body pg s =
     (case visible_rows pg of
        Inl ex \<Rightarrow> Raised ex
      | Inr rows \<Rightarrow>
          (case process_rows rows s of
             Inl ex \<Rightarrow> Raised ex
           | Inr s1 \<Rightarrow>
               (case scrollY pg of
                  Inl ex \<Rightarrow> Raised ex
                | Inr current_scroll_position \<Rightarrow>
                    (let s2 = s1\<lparr>wheel_log := wheel_log s1 @ [distance s1]\<rparr> in
                     if current_scroll_position + window_height s2 \<ge> page_height s2 then
                       (if attempt s2 \<le> 0 then Break s2
                        else Continue (s2\<lparr>attempt := attempt s2 - 1\<rparr>))
                     else Continue s2))))"

text \<open>
  The \<open>while True\<close> loop. It need not end: \<open>None\<close> is the run that loops forever.
  The second argument counts the passes made so far.
\<close>

partial_function (option) scrape_loop ::
  "(nat \<Rightarrow> page_reading) \<Rightarrow> nat \<Rightarrow> run_state \<Rightarrow> (exn + run_state) option" where
  "scrape_loop env i s =
     (case loop_body (env i) s of
        Raised ex \<Rightarrow> Some (Inl ex)
      | Break s' \<Rightarrow> Some (Inr s')
      | Continue s' \<Rightarrow> scrape_loop env (Suc i) s')"

definition scrape_data :: "datetime \<Rightarrow> browser \<Rightarrow> (exn + scraped) option" where
  "scrape_data now b =
     (case startup b of
        Inl ex \<Rightarrow> Some (Inl ex)
      | Inr pg \<Rightarrow>
          (case scrape_loop (readings b) 0 (initial_state now pg) of
             None \<Rightarrow> None
           | Some (Inl ex) \<Rightarrow> Some (Inl ex)
           | Some (Inr s) \<Rightarrow>
               (case close b of
                  Inl ex \<Rightarrow> Some (Inl ex)
                | Inr u \<Rightarrow> Some (Inr (scraped_data s)))))"

text \<open>
  The first \<open>k\<close> passes of the loop from pass \<open>i\<close> on, stopping at a raise or a break.
\<close>

fun passes :: "(nat \<Rightarrow> page_reading) \<Rightarrow> nat \<Rightarrow> run_state \<Rightarrow> nat \<Rightarrow> outcome" where
  "passes env i s 0 = Continue s"
| "passes env i s (Suc k) =
     (case loop_body (env i) s of
        Continue s' \<Rightarrow> passes env (Suc i) s' k
      | out \<Rightarrow> out)"

text \<open>What an outcome hands to the caller of the loop, if the loop has ended.\<close>

fun ended :: "outcome \<Rightarrow> (exn + run_state) option" where
  "ended (Raised ex) = Some (Inl ex)"
| "ended (Break s) = Some (Inr s)"
| "ended (Continue s) = None"

fun state_of :: "outcome \<Rightarrow> run_state option" where
  "state_of (Raised ex) = None"
| "state_of (Break s) = Some s"
| "state_of (Continue s) = Some s"

text \<open>The subscript chain \<open>scraped_data[date]["data_list"]\<close> (lines 62 and 75).\<close>

definition data_list :: "run_state \<Rightarrow> exn + chain_data list" where
  "data_list s =
     (case map_of (scraped_data s) (date s) of
        None \<Rightarrow> Inl KeyError
      | Some inner \<Rightarrow>
          (case map_of inner ''data_list'' of
             None \<Rightarrow> Inl KeyError
           | Some rows \<Rightarrow> Inr rows))"

text \<open>
  The test of line 68 on the position read in a pass, with the heights held in the local
  variables.
\<close>

definition bottom_reached :: "run_state \<Rightarrow> page_reading \<Rightarrow> bool" where
  "bottom_reached s pg =
     (case scrollY pg of
        Inl ex \<Rightarrow> False
      | Inr current_scroll_position \<Rightarrow>
          current_scroll_position + window_height s \<ge> page_height s)"

text \<open>A pass in which no browser call made by \<open>scrape_data\<close> itself raises.\<close>

definition responsive :: "page_reading \<Rightarrow> bool" where
  "responsive pg =
     ((case visible_rows pg of
         Inl ex \<Rightarrow> False
       | Inr rows \<Rightarrow> list_all (\<lambda>r. \<not> isl (chain_link_count r)) rows)
      \<and> \<not> isl (scrollY pg))"

text \<open>The number of passes among the first \<open>k\<close> in which the test of line 68 holds.\<close>

definition bottom_count :: "run_state \<Rightarrow> (nat \<Rightarrow> page_reading) \<Rightarrow> nat \<Rightarrow> nat" where
  "bottom_count s env k = length (filter (\<lambda>j. bottom_reached s (env j)) [0..<k])"

text \<open>
  The extraction results that reach the tests of lines 58 and 59 as a dictionary, in the
  order of the rows: those of the rows that hold a chain link and whose extraction did not
  return \<open>None\<close>.
\<close>

definition offered :: "row_locator list \<Rightarrow> chain_data list" where
  "offered rows =
     List.map_filter
       (\<lambda>r. case chain_link_count r of
              Inl ex \<Rightarrow> None
            | Inr n \<Rightarrow> (if n > 0 then extract_data_from_row r else None))
       rows"

text \<open>The rows offered in the first \<open>k\<close> passes of the loop, in order.\<close>

definition offered_upto :: "(nat \<Rightarrow> page_reading) \<Rightarrow> nat \<Rightarrow> chain_data list" where
  "offered_upto env k =
     concat (map (\<lambda>i. case visible_rows (env i) of Inl ex \<Rightarrow> [] | Inr rows \<Rightarrow> offered rows) [0..<k])"

section \<open>Persistence (\<open>main\<close>, lines 89 to 121)\<close>

datatype json =
  JNull | JBool bool | JNum int | JStr string | JList "json list" | JObj "(string \<times> json) list"

definition row_json :: "chain_data \<Rightarrow> json" where
  "row_json c =
     JObj [(''Name'', JStr (Name c)), (''Protocols'', JStr (Protocols c)), (''TVL'', JStr (TVL c))]"

definition scraped_json :: "scraped \<Rightarrow> json" where
  "scraped_json sd =
     JObj (map (\<lambda>(k, inner). (k, JObj (map (\<lambda>(k', rows). (k', JList (map row_json rows))) inner))) sd)"

text \<open>
  The output file as \<open>main\<close> meets it: absent, holding a JSON value, holding text that
  \<open>json.load\<close> rejects with \<open>JSONDecodeError\<close>, or raising another exception when opened
  or read.
\<close>

datatype file_state = Missing | Holds json | Undecodable | Unopenable

text \<open>
  The write of lines 114 to 119 either succeeds or raises, leaving the file in some state.
\<close>

datatype write_outcome = Written | WriteRaises file_state

text \<open>Lines 95 to 110.\<close>

definition load_existing :: "file_state \<Rightarrow> json list" where
  "load_existing f =
     (case f of
        Missing \<Rightarrow> []
      | Holds existing_data \<Rightarrow>
          (case existing_data of JList xs \<Rightarrow> xs | _ \<Rightarrow> [existing_data])
      | Undecodable \<Rightarrow> []
      | Unopenable \<Rightarrow> [])"

text \<open>
  \<open>main\<close> returns the state of the output file after the run; \<open>None\<close> when the scrape never
  returns. An exception of \<open>scrape_data\<close> is logged and the file is left as it was.
\<close>

definition main :: "datetime \<Rightarrow> browser \<Rightarrow> file_state \<Rightarrow> write_outcome \<Rightarrow> file_state option" where
  "main now b f w =
     (case scrape_data now b of
        None \<Rightarrow> None
      | Some (Inl ex) \<Rightarrow> Some f
      | Some (Inr scraped_result) \<Rightarrow>
          (let all_results = load_existing f @ [scraped_json scraped_result] in
           case w of
             Written \<Rightarrow> Some (Holds (JList all_results))
           | WriteRaises f' \<Rightarrow> Some f'))"

section \<open>Configuration (\<open>load_config\<close>, lines 124 to 153)\<close>

text \<open>
  A dictionary with string keys is an association list in insertion order with distinct
  keys, as \<open>json.load\<close> returns it. \<open>d[k] = v\<close> is \<open>AList.update\<close>: it replaces the value
  in place or appends the new key; \<open>d.update(e)\<close> sets the items of \<open>e\<close> in order.
\<close>

definition dict_update :: "(string \<times> json) list \<Rightarrow> (string \<times> json) list \<Rightarrow> (string \<times> json) list" where
  "dict_update d e = foldl (\<lambda>acc (k, v). AList.update k v acc) d e"

definition default_config :: "(string \<times> json) list" where
  "default_config =
     [(''interval_minutes'', JNum 5),
      (''proxy_settings'',
         JObj [(''enabled'', JBool False), (''server'', JStr []),
               (''username'', JStr []), (''password'', JStr [])])]"

text \<open>
  The configuration file is absent, is rejected by \<open>json.load\<close>, or holds a JSON object.
  A file holding a JSON value that is not an object is outside this model.
\<close>

datatype config_file = ConfigMissing | ConfigUndecodable | ConfigObject "(string \<times> json) list"

text \<open>
  With the file absent, \<open>os.makedirs(os.path.dirname("config.json"))\<close> is
  \<open>os.makedirs("")\<close>, which raises; every exception is logged and \<open>config\<close> is returned
  as it stands. After line 141, \<open>config["proxy_settings"]\<close> is the value the file gave, so
  line 143 updates that dictionary with its own items.
\<close>

definition load_config :: "config_file \<Rightarrow> (string \<times> json) list" where
  "load_config f =
     (case f of
        ConfigMissing \<Rightarrow> default_config
      | ConfigUndecodable \<Rightarrow> default_config
      | ConfigObject loaded_config \<Rightarrow>
          (let config = dict_update default_config loaded_config in
           case map_of loaded_config ''proxy_settings'' of
             Some (JObj loaded_proxy) \<Rightarrow>
               (case map_of config ''proxy_settings'' of
                  Some (JObj current) \<Rightarrow>
                    AList.update ''proxy_settings'' (JObj (dict_update current loaded_proxy)) config
                | _ \<Rightarrow> config)
           | _ \<Rightarrow> config))"

section \<open>Example pages\<close>

text \<open>
  A visible cell, a chain row of three visible cells, the dictionary extracted from such a
  row, and a page reading with a window 500 high.
\<close>

definition cell :: "string \<Rightarrow> locator" where
  "cell t = \<lparr>is_visible = Inr True, text_content = Inr (Some t)\<rparr>"

definition chain_row :: "string \<Rightarrow> row_locator" where
  "chain_row n =
     \<lparr>chain_link_count = Inr 1, name_element = cell n,
      protocols_element = cell ''12'', tvl_element = cell ''$1b''\<rparr>"

definition listed :: "string \<Rightarrow> chain_data" where
  "listed n = \<lparr>Name = n, Protocols = ''12'', TVL = ''$1b''\<rparr>"

definition window :: "row_locator list \<Rightarrow> int \<Rightarrow> int \<Rightarrow> page_reading" where
  "window rows y h = \<lparr>visible_rows = Inr rows, scrollY = Inr y, scrollHeight = h, innerHeight = 500\<rparr>"

text \<open>
  A table of the rows A, B and C rendered in two windows, A in both; the first scroll does
  not reach the bottom of the page, every later one does.
\<close>

definition start_page :: page_reading where
  "start_page = window [] 300 1100"

definition two_windows :: "nat \<Rightarrow> page_reading" where
  "two_windows i =
     (if i = 0 then window [chain_row '' A'', chain_row ''B''] 500 1100
      else window [chain_row ''A '', chain_row ''C''] 600 1100)"

definition two_windows_browser :: browser where
  "two_windows_browser = \<lparr>startup = Inr start_page, readings = two_windows, close = Inr ()\<rparr>"

text \<open>A page on which already the first scroll of the loop reaches the bottom.\<close>

definition settled_page :: "nat \<Rightarrow> page_reading" where
  "settled_page i = window [] 600 1100"

text \<open>
  A page whose document doubles in height after the first scroll of the loop has reached
  the bottom; the second scroll is not at the bottom of the grown document, the third is.
\<close>

definition growing_page :: "nat \<Rightarrow> page_reading" where
  "growing_page i =
     (if i = 0 then window [] 600 1100
      else if i = 1 then window [] 1100 2200
      else window [] 1700 2200)"

text \<open>A page on which no scroll of the loop ever reaches the bottom.\<close>

definition unending_page :: "nat \<Rightarrow> page_reading" where
  "unending_page i = window [] 0 1100"

definition unending_browser :: browser where
  "unending_browser = \<lparr>startup = Inr start_page, readings = unending_page, close = Inr ()\<rparr>"

definition noon :: datetime where
  "noon = \<lparr>year = 2025, month = 7, day = 4, hour = 12, minute = 0, second = 0\<rparr>"

definition noon_label :: string where
  "noon_label = ''Scraping at2025-07-04 12:00:00''"

text \<open>The state of a run on these pages with the given rows, counter and loop scrolls.\<close>

definition example_state :: "chain_data list \<Rightarrow> int \<Rightarrow> nat \<Rightarrow> run_state" where
  "example_state rows a n =
     \<lparr>distance = 500, page_height = 1100, window_height = 500, date = noon_label,
      scraped_data = [(noon_label, [(''data_list'', rows)])],
      unique_names = set (map Name rows), attempt = a,
      wheel_log = 300 # replicate n 500\<rparr>"

section \<open>Predicates used in the proofs\<close>

text \<open>
  The accumulator is well formed with the rows \<open>rows\<close>: the nested dictionary holds the one
  key \<open>date\<close> over the one key \<open>data_list\<close>, and the set of seen names is the set of
  the names in the list, which are distinct and never the sentinel.
\<close>

definition rows_inv :: "run_state \<Rightarrow> chain_data list \<Rightarrow> bool" where
  "rows_inv s rows \<longleftrightarrow>
     scraped_data s = [(date s, [(''data_list'', rows)])] \<and>
     unique_names s = set (map Name rows) \<and>
     distinct (map Name rows) \<and> NA \<notin> set (map Name rows)"

text \<open>The variables no statement of the loop assigns.\<close>

definition same_frame :: "run_state \<Rightarrow> run_state \<Rightarrow> bool" where
  "same_frame s s' \<longleftrightarrow>
     distance s' = distance s \<and> page_height s' = page_height s \<and>
     window_height s' = window_height s \<and> date s' = date s"

text \<open>The two tests of lines 58 and 59.\<close>

definition admitted :: "run_state \<Rightarrow> chain_data option \<Rightarrow> bool" where
  "admitted s chain = (case chain of None \<Rightarrow> False | Some c \<Rightarrow> Name c \<noteq> NA \<and> Name c \<notin> unique_names s)"

text \<open>
  The rows of a sequence of offers that the tests of lines 58 and 59 let through, given the
  names seen before.
\<close>

fun first_offers :: "string set \<Rightarrow> chain_data list \<Rightarrow> chain_data list" where
  "first_offers seen [] = []"
| "first_offers seen (c # cs) =
     (if Name c \<noteq> NA \<and> Name c \<notin> seen then c # first_offers (insert (Name c) seen) cs
      else first_offers seen cs)"

section \<open>Facts about strings\<close>

lemma strip_NA: "strip NA = NA"
  by (simp add: strip_def NA_def isspace_def)

lemma strip_decompose:
  "\<exists>a b. s = a @ strip s @ b \<and> list_all isspace a \<and> list_all isspace b"
proof -
  let ?d = "dropWhile isspace s"
  let ?a = "takeWhile isspace s"
  let ?b = "rev (takeWhile isspace (rev ?d))"
  have "rev ?d = takeWhile isspace (rev ?d) @ dropWhile isspace (rev ?d)"
    by simp
  then have "?d = strip s @ ?b"
    unfolding strip_def by (metis rev_append rev_rev_ident)
  then have "s = ?a @ strip s @ ?b"
    by (metis takeWhile_dropWhile_id)
  moreover have "list_all isspace ?a"
    by (simp add: list_all_iff) (meson set_takeWhileD)
  moreover have "list_all isspace ?b"
    by (simp add: list_all_iff) (meson set_takeWhileD)
  ultimately show ?thesis by blast
qed

lemma strip_ends:
  assumes "strip s \<noteq> []"
  shows "\<not> isspace (hd (strip s)) \<and> \<not> isspace (last (strip s))"
proof -
  let ?d = "dropWhile isspace s"
  let ?e = "dropWhile isspace (rev ?d)"
  have ne: "?e \<noteq> []" using assms by (simp add: strip_def)
  then have l: "\<not> isspace (hd ?e)" by (rule hd_dropWhile)
  have "last (strip s) = hd ?e" using ne by (simp add: strip_def last_rev)
  then have A: "\<not> isspace (last (strip s))" using l by simp
  have dne: "?d \<noteq> []"
    using ne by (metis dropWhile.simps(1) rev.simps(1))
  have "rev ?d = takeWhile isspace (rev ?d) @ ?e" by simp
  then have "?d = strip s @ rev (takeWhile isspace (rev ?d))"
    unfolding strip_def by (metis rev_append rev_rev_ident)
  then have "hd ?d = hd (strip s)" using assms by (metis hd_append2)
  moreover have "\<not> isspace (hd ?d)" using dne by (rule hd_dropWhile)
  ultimately show ?thesis using A by simp
qed

section \<open>Row extraction\<close>

lemma read_cell_visible:
  "is_visible e = Inr True \<Longrightarrow> text_content e = Inr (Some t) \<Longrightarrow> read_cell e = Inr (strip t)"
  by (simp add: read_cell_def)

lemma read_cell_hidden:
  "is_visible e = Inr False \<Longrightarrow> read_cell e = Inr NA"
  by (simp add: read_cell_def strip_NA)

text \<open>
  Claim C6. A row whose name and protocols cells are visible and give their text, and
  whose TVL cell is reported not visible (an absent element is reported so too), is
  extracted as the record of the two trimmed texts with \<open>"N/A"\<close> for the TVL; the result
  is never \<open>None\<close>. Trimmed means: the text without a leading and a trailing run of
  whitespace, the result neither starting nor ending with whitespace.
\<close>

theorem extract_missing_tvl:
  assumes "is_visible (name_element r) = Inr True"
    and "text_content (name_element r) = Inr (Some n)"
    and "is_visible (protocols_element r) = Inr True"
    and "text_content (protocols_element r) = Inr (Some p)"
    and "is_visible (tvl_element r) = Inr False"
  shows "extract_data_from_row r = Some \<lparr>Name = strip n, Protocols = strip p, TVL = ''N/A''\<rparr>
    \<and> (\<exists>a b. n = a @ strip n @ b \<and> list_all isspace a \<and> list_all isspace b)
    \<and> (\<exists>a b. p = a @ strip p @ b \<and> list_all isspace a \<and> list_all isspace b)
    \<and> (strip n \<noteq> [] \<longrightarrow> \<not> isspace (hd (strip n)) \<and> \<not> isspace (last (strip n)))
    \<and> (strip p \<noteq> [] \<longrightarrow> \<not> isspace (hd (strip p)) \<and> \<not> isspace (last (strip p)))"
proof -
  have "extract_data_from_row r = Some \<lparr>Name = strip n, Protocols = strip p, TVL = ''N/A''\<rparr>"
    using assms
    by (simp add: extract_data_from_row_def read_cell_visible read_cell_hidden NA_def)
  then show ?thesis
    using strip_decompose [of n] strip_decompose [of p] strip_ends [of n] strip_ends [of p]
    by blast
qed

theorem extract_missing_tvl_witness:
  "extract_data_from_row
     \<lparr>chain_link_count = Inr 1,
      name_element = \<lparr>is_visible = Inr True, text_content = Inr (Some '' Ethereum '')\<rparr>,
      protocols_element = \<lparr>is_visible = Inr True, text_content = Inr (Some ''1024 '')\<rparr>,
      tvl_element = \<lparr>is_visible = Inr False, text_content = Inl PlaywrightError\<rparr>\<rparr>
   = Some \<lparr>Name = ''Ethereum'', Protocols = ''1024'', TVL = ''N/A''\<rparr>"
  using extract_missing_tvl
    [of "\<lparr>chain_link_count = Inr 1,
      name_element = \<lparr>is_visible = Inr True, text_content = Inr (Some '' Ethereum '')\<rparr>,
      protocols_element = \<lparr>is_visible = Inr True, text_content = Inr (Some ''1024 '')\<rparr>,
      tvl_element = \<lparr>is_visible = Inr False, text_content = Inl PlaywrightError\<rparr>\<rparr>"
     "'' Ethereum ''" "''1024 ''"]
  by (simp add: strip_def isspace_def)

section \<open>The accumulator and the loop\<close>

lemma data_list_append_shaped:
  "data_list_append d c [(d, [(''data_list'', rows)])] = Inr [(d, [(''data_list'', rows @ [c])])]"
  by (simp add: data_list_append_def)

lemma data_list_shaped:
  "scraped_data s = [(date s, [(''data_list'', rows)])] \<Longrightarrow> data_list s = Inr rows"
  by (simp add: data_list_def)

lemma offer_frame:
  "offer chain s = Inr s' \<Longrightarrow>
     same_frame s s' \<and> attempt s' = attempt s \<and> wheel_log s' = wheel_log s"
  by (auto simp: offer_def same_frame_def split: option.splits if_splits sum.splits)

lemma offer_rows_inv:
  assumes "rows_inv s rows"
  shows "\<exists>s'. offer chain s = Inr s' \<and>
           rows_inv s' (if admitted s chain then rows @ [the chain] else rows)"
proof (cases chain)
  case None
  then show ?thesis using assms by (simp add: offer_def admitted_def)
next
  case (Some c)
  show ?thesis
  proof (cases "Name c \<noteq> NA \<and> Name c \<notin> unique_names s")
    case True
    have sd: "scraped_data s = [(date s, [(''data_list'', rows)])]"
      using assms by (simp add: rows_inv_def)
    have "offer chain s =
        Inr (s\<lparr>unique_names := insert (Name c) (unique_names s),
               scraped_data := [(date s, [(''data_list'', rows @ [c])])]\<rparr>)"
      using True Some by (simp add: offer_def sd data_list_append_shaped)
    moreover have "rows_inv (s\<lparr>unique_names := insert (Name c) (unique_names s),
               scraped_data := [(date s, [(''data_list'', rows @ [c])])]\<rparr>) (rows @ [c])"
      using assms True by (auto simp: rows_inv_def)
    ultimately show ?thesis using True Some by (simp add: admitted_def)
  next
    case False
    then have "offer chain s = Inr s" using Some by (auto simp: offer_def)
    then show ?thesis using False Some assms by (auto simp: admitted_def)
  qed
qed

lemma process_row_frame:
  "process_row r s = Inr s' \<Longrightarrow>
     same_frame s s' \<and> attempt s' = attempt s \<and> wheel_log s' = wheel_log s"
  by (auto simp: process_row_def same_frame_def split: sum.splits if_splits dest: offer_frame)

lemma same_frame_refl: "same_frame s s"
  by (simp add: same_frame_def)

lemma same_frame_trans: "same_frame s s' \<Longrightarrow> same_frame s' s'' \<Longrightarrow> same_frame s s''"
  by (simp add: same_frame_def)

lemma process_rows_frame:
  "process_rows rs s = Inr s' \<Longrightarrow>
     same_frame s s' \<and> attempt s' = attempt s \<and> wheel_log s' = wheel_log s"
proof (induction rs arbitrary: s)
  case Nil
  then show ?case by (simp add: same_frame_refl)
next
  case (Cons r rs)
  from Cons.prems obtain s1 where 1: "process_row r s = Inr s1" and 2: "process_rows rs s1 = Inr s'"
    by (auto split: sum.splits)
  from process_row_frame [OF 1] Cons.IH [OF 2] show ?case
    by (auto intro: same_frame_trans)
qed

lemma process_row_rows_inv:
  assumes "rows_inv s rows" and "process_row r s = Inr s'"
  shows "\<exists>ys. rows_inv s' (rows @ ys)"
proof -
  from assms(2) have "s' = s \<or> offer (extract_data_from_row r) s = Inr s'"
    by (auto simp: process_row_def split: sum.splits if_splits)
  then show ?thesis
  proof
    assume "s' = s"
    then have "rows_inv s' (rows @ [])" using assms(1) by simp
    then show ?thesis by blast
  next
    assume o: "offer (extract_data_from_row r) s = Inr s'"
    from offer_rows_inv [OF assms(1), of "extract_data_from_row r"] o
    have "rows_inv s' (if admitted s (extract_data_from_row r)
            then rows @ [the (extract_data_from_row r)] else rows @ [])"
      by auto
    then show ?thesis by (metis (full_types))
  qed
qed

lemma process_rows_rows_inv:
  "rows_inv s rows \<Longrightarrow> process_rows rs s = Inr s' \<Longrightarrow> \<exists>ys. rows_inv s' (rows @ ys)"
proof (induction rs arbitrary: s rows)
  case Nil
  then have "rows_inv s' (rows @ [])" by simp
  then show ?case by blast
next
  case (Cons r rs)
  from Cons.prems(2) obtain s1 where 1: "process_row r s = Inr s1" and 2: "process_rows rs s1 = Inr s'"
    by (auto split: sum.splits)
  from process_row_rows_inv [OF Cons.prems(1) 1] obtain ys where "rows_inv s1 (rows @ ys)" by blast
  from Cons.IH [OF this 2] obtain zs where "rows_inv s' ((rows @ ys) @ zs)" by blast
  then have "rows_inv s' (rows @ (ys @ zs))" by simp
  then show ?case by blast
qed

lemma process_row_no_raise:
  assumes "rows_inv s rows" and "\<not> isl (chain_link_count r)"
  shows "\<exists>s'. process_row r s = Inr s'"
proof -
  from assms(2) obtain n where n: "chain_link_count r = Inr n" by (cases "chain_link_count r") auto
  from offer_rows_inv [OF assms(1), of "extract_data_from_row r"]
  obtain s' where "offer (extract_data_from_row r) s = Inr s'" by blast
  then show ?thesis using n by (simp add: process_row_def)
qed

lemma process_rows_no_raise:
  "rows_inv s rows \<Longrightarrow> list_all (\<lambda>r. \<not> isl (chain_link_count r)) rs \<Longrightarrow>
     \<exists>s'. process_rows rs s = Inr s'"
proof (induction rs arbitrary: s rows)
  case Nil
  then show ?case by simp
next
  case (Cons r rs)
  from Cons.prems(2) have a: "\<not> isl (chain_link_count r)"
    and b: "list_all (\<lambda>r. \<not> isl (chain_link_count r)) rs" by simp_all
  from process_row_no_raise [OF Cons.prems(1) a] obtain s1 where 1: "process_row r s = Inr s1" by blast
  from process_row_rows_inv [OF Cons.prems(1) 1] obtain ys where "rows_inv s1 (rows @ ys)" by blast
  from Cons.IH [OF this b] obtain s' where "process_rows rs s1 = Inr s'" by blast
  then show ?case using 1 by simp
qed


lemma bottom_reached_frame:
  "same_frame s s' \<Longrightarrow> bottom_reached s' pg = bottom_reached s pg"
  by (auto simp: bottom_reached_def same_frame_def split: sum.splits)

lemma loop_body_Continue:
  assumes "loop_body pg s = Continue s'"
  shows "same_frame s s' \<and> wheel_log s' = wheel_log s @ [distance s] \<and>
         (if bottom_reached s pg then 0 < attempt s \<and> attempt s' = attempt s - 1
          else attempt s' = attempt s)"
proof -
  from assms obtain rows s1 y where
    r: "visible_rows pg = Inr rows" and p: "process_rows rows s = Inr s1" and y: "scrollY pg = Inr y"
    by (auto simp: loop_body_def split: sum.splits)
  from process_rows_frame [OF p] have f: "same_frame s s1" "attempt s1 = attempt s"
    "wheel_log s1 = wheel_log s" by simp_all
  from f(1) have b: "bottom_reached s pg = (page_height s1 \<le> y + window_height s1)"
    by (simp add: bottom_reached_def y same_frame_def)
  show ?thesis
    using assms f b
    by (auto simp: loop_body_def r p y Let_def same_frame_def split: if_splits)
qed

lemma loop_body_Break:
  assumes "loop_body pg s = Break s'"
  shows "same_frame s s' \<and> wheel_log s' = wheel_log s @ [distance s] \<and>
         bottom_reached s pg \<and> attempt s \<le> 0 \<and> attempt s' = attempt s"
proof -
  from assms obtain rows s1 y where
    r: "visible_rows pg = Inr rows" and p: "process_rows rows s = Inr s1" and y: "scrollY pg = Inr y"
    by (auto simp: loop_body_def split: sum.splits)
  from process_rows_frame [OF p] have f: "same_frame s s1" "attempt s1 = attempt s"
    "wheel_log s1 = wheel_log s" by simp_all
  from f(1) have b: "bottom_reached s pg = (page_height s1 \<le> y + window_height s1)"
    by (simp add: bottom_reached_def y same_frame_def)
  show ?thesis
    using assms f b
    by (auto simp: loop_body_def r p y Let_def same_frame_def split: if_splits)
qed

lemma loop_body_rows_inv:
  assumes "rows_inv s rows" and "loop_body pg s = Continue s' \<or> loop_body pg s = Break s'"
  shows "\<exists>ys. rows_inv s' (rows @ ys)"
proof -
  from assms(2) obtain rs s1 y where
    r: "visible_rows pg = Inr rs" and p: "process_rows rs s = Inr s1" and y: "scrollY pg = Inr y"
    by (auto simp: loop_body_def split: sum.splits)
  from process_rows_rows_inv [OF assms(1) p] obtain ys where i: "rows_inv s1 (rows @ ys)" by blast
  from assms(2) have "scraped_data s' = scraped_data s1 \<and> unique_names s' = unique_names s1
      \<and> date s' = date s1"
    by (auto simp: loop_body_def r p y Let_def split: if_splits)
  with i have "rows_inv s' (rows @ ys)" by (simp add: rows_inv_def)
  then show ?thesis by blast
qed

lemma loop_body_no_raise:
  assumes "rows_inv s rows" and "responsive pg"
  shows "loop_body pg s \<noteq> Raised ex"
proof -
  from assms(2) obtain rs where r: "visible_rows pg = Inr rs"
    and l: "list_all (\<lambda>r. \<not> isl (chain_link_count r)) rs"
    by (auto simp: responsive_def split: sum.splits)
  from assms(2) obtain y where y: "scrollY pg = Inr y"
    by (cases "scrollY pg") (auto simp: responsive_def)
  from process_rows_no_raise [OF assms(1) l] obtain s1 where p: "process_rows rs s = Inr s1" by blast
  show ?thesis by (simp add: loop_body_def r p y Let_def)
qed

lemma loop_body_cases:
  assumes "rows_inv s rows" and "responsive pg"
  shows "\<exists>s'. loop_body pg s =
           (if bottom_reached s pg \<and> attempt s \<le> 0 then Break s' else Continue s')"
proof (cases "loop_body pg s")
  case (Raised ex)
  with loop_body_no_raise [OF assms, of ex] show ?thesis by simp
next
  case (Break s')
  with loop_body_Break [OF Break] show ?thesis by auto
next
  case (Continue s')
  with loop_body_Continue [OF Continue] show ?thesis by (auto split: if_splits)
qed

lemma passes_add:
  "passes env i s (m + k) =
     (case passes env i s m of Continue s' \<Rightarrow> passes env (i + m) s' k | out \<Rightarrow> out)"
  by (induction m arbitrary: i s) (auto split: outcome.splits)

lemma passes_Suc_end:
  "passes env i s (Suc k) =
     (case passes env i s k of Continue s' \<Rightarrow> loop_body (env (i + k)) s' | out \<Rightarrow> out)"
  using passes_add [of env i s k 1] by (auto split: outcome.splits)

lemma scrape_loop_passes:
  "ended (passes env i s k) = Some r \<Longrightarrow> scrape_loop env i s = Some r"
proof (induction k arbitrary: i s)
  case 0
  then show ?case by simp
next
  case (Suc k)
  show ?case
  proof (cases "loop_body (env i) s")
    case (Continue s')
    with Suc.prems have "ended (passes env (Suc i) s' k) = Some r" by simp
    from Suc.IH [OF this] show ?thesis
      by (subst scrape_loop.simps) (simp add: Continue)
  next
    case (Raised ex)
    with Suc.prems show ?thesis by (subst scrape_loop.simps) auto
  next
    case (Break s')
    with Suc.prems show ?thesis by (subst scrape_loop.simps) auto
  qed
qed

lemma passes_scrape_loop:
  assumes "scrape_loop env i s = Some r"
  shows "\<exists>k. ended (passes env i s k) = Some r"
  using assms
proof (induction rule: scrape_loop.raw_induct [rotated 1, consumes 1])
  case (1 scrape_loop' env i s r)
  show ?case
  proof (cases "loop_body (env i) s")
    case (Continue s')
    with 1(2) have "scrape_loop' env (Suc i) s' = Some r" by simp
    from 1(1) [OF this] obtain k where "ended (passes env (Suc i) s' k) = Some r" by blast
    then have "ended (passes env i s (Suc k)) = Some r" by (simp add: Continue)
    then show ?thesis by blast
  next
    case (Raised ex)
    with 1(2) have "ended (passes env i s (Suc 0)) = Some r" by auto
    then show ?thesis by blast
  next
    case (Break s')
    with 1(2) have "ended (passes env i s (Suc 0)) = Some r" by auto
    then show ?thesis by blast
  qed
qed


lemma passes_Continue:
  "passes env i s0 k = Continue s \<Longrightarrow>
     same_frame s0 s \<and> wheel_log s = wheel_log s0 @ replicate k (distance s0) \<and>
     attempt s = attempt s0 - int (length (filter (\<lambda>j. bottom_reached s0 (env j)) [i..<i + k]))"
proof (induction k arbitrary: s)
  case 0
  then show ?case by (simp add: same_frame_refl)
next
  case (Suc k)
  from Suc.prems obtain s1 where 1: "passes env i s0 k = Continue s1"
    and 2: "loop_body (env (i + k)) s1 = Continue s"
    by (auto simp: passes_Suc_end simp del: passes.simps(2) split: outcome.splits)
  from Suc.IH [OF 1] have f: "same_frame s0 s1"
    and w: "wheel_log s1 = wheel_log s0 @ replicate k (distance s0)"
    and a: "attempt s1 = attempt s0 - int (length (filter (\<lambda>j. bottom_reached s0 (env j)) [i..<i + k]))"
    by simp_all
  from loop_body_Continue [OF 2] have f': "same_frame s1 s"
    and w': "wheel_log s = wheel_log s1 @ [distance s1]"
    and a': "attempt s = attempt s1 - (if bottom_reached s1 (env (i + k)) then 1 else 0)"
    by (simp_all split: if_splits)
  have d: "distance s1 = distance s0" using f by (simp add: same_frame_def)
  have b: "bottom_reached s1 (env (i + k)) = bottom_reached s0 (env (i + k))"
    using f by (rule bottom_reached_frame)
  have "wheel_log s = wheel_log s0 @ replicate (Suc k) (distance s0)"
    using w w' d by (simp add: replicate_append_same)
  moreover have "attempt s =
      attempt s0 - int (length (filter (\<lambda>j. bottom_reached s0 (env j)) [i..<i + Suc k]))"
    using a a' b by simp
  ultimately show ?case using same_frame_trans [OF f f'] by simp
qed

lemma passes_Break:
  "passes env i s0 k = Break s \<Longrightarrow>
     \<exists>m s1. m < k \<and> passes env i s0 m = Continue s1 \<and> loop_body (env (i + m)) s1 = Break s"
proof (induction k)
  case 0
  then show ?case by simp
next
  case (Suc k)
  show ?case
  proof (cases "passes env i s0 k")
    case (Continue s1)
    with Suc.prems have "loop_body (env (i + k)) s1 = Break s" by (simp add: passes_Suc_end del: passes.simps(2))
    with Continue show ?thesis by blast
  next
    case (Break s')
    with Suc.prems have "passes env i s0 k = Break s" by (simp add: passes_Suc_end del: passes.simps(2))
    from Suc.IH [OF this] show ?thesis using less_Suc_eq by blast
  next
    case (Raised ex)
    with Suc.prems show ?thesis by (simp add: passes_Suc_end del: passes.simps(2))
  qed
qed

lemma passes_rows_inv:
  "rows_inv s0 rows \<Longrightarrow> passes env i s0 k = Continue s \<or> passes env i s0 k = Break s \<Longrightarrow>
     \<exists>ys. rows_inv s (rows @ ys)"
proof (induction k arbitrary: i s0 rows)
  case 0
  then have "rows_inv s (rows @ [])" by simp
  then show ?case by blast
next
  case (Suc k)
  show ?case
  proof (cases "loop_body (env i) s0")
    case (Continue s1)
    from loop_body_rows_inv [OF Suc.prems(1), of "env i" s1] Continue
    obtain ys where 1: "rows_inv s1 (rows @ ys)" by blast
    from Suc.prems(2) Continue
    have "passes env (Suc i) s1 k = Continue s \<or> passes env (Suc i) s1 k = Break s" by simp
    from Suc.IH [OF 1 this] obtain zs where "rows_inv s ((rows @ ys) @ zs)" by blast
    then have "rows_inv s (rows @ (ys @ zs))" by simp
    then show ?thesis by blast
  next
    case (Break s')
    with Suc.prems(2) have "s = s'" by simp
    with loop_body_rows_inv [OF Suc.prems(1), of "env i" s'] Break show ?thesis by blast
  next
    case (Raised ex)
    with Suc.prems(2) show ?thesis by simp
  qed
qed

lemma run_continue:
  assumes "rows_inv s0 rows"
    and "\<forall>j<k. responsive (env (i + j))"
    and "int (length (filter (\<lambda>j. bottom_reached s0 (env j)) [i..<i + k])) \<le> attempt s0"
  shows "\<exists>s. passes env i s0 k = Continue s"
  using assms(2,3)
proof (induction k)
  case 0
  then show ?case by simp
next
  case (Suc k)
  let ?c = "\<lambda>k. int (length (filter (\<lambda>j. bottom_reached s0 (env j)) [i..<i + k]))"
  have le: "?c k \<le> ?c (Suc k)" by simp
  from Suc.prems have "\<forall>j<k. responsive (env (i + j))" and "?c k \<le> attempt s0"
    using le by auto
  from Suc.IH [OF this] obtain s1 where 1: "passes env i s0 k = Continue s1" by blast
  from passes_Continue [OF 1] have f: "same_frame s0 s1" and a: "attempt s1 = attempt s0 - ?c k"
    by simp_all
  from passes_rows_inv [OF assms(1), of env i k s1] 1 obtain ys where r: "rows_inv s1 (rows @ ys)"
    by blast
  from Suc.prems(1) have resp: "responsive (env (i + k))" by simp
  from loop_body_cases [OF r resp] obtain s' where
    lb: "loop_body (env (i + k)) s1 =
           (if bottom_reached s1 (env (i + k)) \<and> attempt s1 \<le> 0 then Break s' else Continue s')"
    by blast
  have "\<not> (bottom_reached s1 (env (i + k)) \<and> attempt s1 \<le> 0)"
  proof
    assume h: "bottom_reached s1 (env (i + k)) \<and> attempt s1 \<le> 0"
    then have "bottom_reached s0 (env (i + k))" using bottom_reached_frame [OF f] by simp
    then have "?c (Suc k) = ?c k + 1" by simp
    with Suc.prems(2) a h show False by simp
  qed
  with lb have "loop_body (env (i + k)) s1 = Continue s'" by simp
  with 1 have "passes env i s0 (Suc k) = Continue s'" by (simp add: passes_Suc_end del: passes.simps(2))
  then show ?case by blast
qed

lemma run_break:
  assumes "rows_inv s0 rows"
    and "\<forall>j\<le>k. responsive (env (i + j))"
    and "int (length (filter (\<lambda>j. bottom_reached s0 (env j)) [i..<i + k])) = attempt s0"
    and "bottom_reached s0 (env (i + k))"
  shows "\<exists>s. passes env i s0 (Suc k) = Break s \<and> same_frame s0 s \<and>
           wheel_log s = wheel_log s0 @ replicate (Suc k) (distance s0) \<and> attempt s = 0 \<and>
           (\<exists>ys. rows_inv s (rows @ ys))"
proof -
  let ?c = "int (length (filter (\<lambda>j. bottom_reached s0 (env j)) [i..<i + k]))"
  from assms(2) have "\<forall>j<k. responsive (env (i + j))" by simp
  from run_continue [OF assms(1) this] assms(3)
  obtain s1 where 1: "passes env i s0 k = Continue s1" by auto
  from passes_Continue [OF 1] have f: "same_frame s0 s1"
    and w: "wheel_log s1 = wheel_log s0 @ replicate k (distance s0)"
    and a: "attempt s1 = attempt s0 - ?c" by simp_all
  from passes_rows_inv [OF assms(1), of env i k s1] 1 obtain ys where r: "rows_inv s1 (rows @ ys)"
    by blast
  from assms(2) have resp: "responsive (env (i + k))" by simp
  from loop_body_cases [OF r resp] obtain s' where
    lb: "loop_body (env (i + k)) s1 =
           (if bottom_reached s1 (env (i + k)) \<and> attempt s1 \<le> 0 then Break s' else Continue s')"
    by blast
  have "bottom_reached s1 (env (i + k))" using assms(4) bottom_reached_frame [OF f] by simp
  moreover have a0: "attempt s1 = 0" using a assms(3) by simp
  ultimately have b: "loop_body (env (i + k)) s1 = Break s'" using lb by simp
  from loop_body_Break [OF b] have f': "same_frame s1 s'"
    and w': "wheel_log s' = wheel_log s1 @ [distance s1]" and a': "attempt s' = attempt s1"
    by simp_all
  have d: "distance s1 = distance s0" using f by (simp add: same_frame_def)
  from loop_body_rows_inv [OF r, of "env (i + k)" s'] b obtain zs
    where "rows_inv s' ((rows @ ys) @ zs)" by blast
  then have "rows_inv s' (rows @ (ys @ zs))" by simp
  then have "\<exists>ys. rows_inv s' (rows @ ys)" by blast
  moreover have "passes env i s0 (Suc k) = Break s'" using 1 b by (simp add: passes_Suc_end del: passes.simps(2))
  moreover have "wheel_log s' = wheel_log s0 @ replicate (Suc k) (distance s0)"
    using w w' d by (simp add: replicate_append_same)
  ultimately show ?thesis using same_frame_trans [OF f f'] a' a0 by auto
qed

section \<open>The termination policy\<close>

lemma initial_rows_inv: "rows_inv (initial_state now pg) []"
  by (simp add: rows_inv_def initial_state_def)

lemma state_of_passes_attempt:
  assumes "state_of (passes env i s k) = Some s'"
  shows "attempt s' \<le> attempt s"
proof (cases "passes env i s k")
  case (Raised ex)
  with assms show ?thesis by simp
next
  case (Continue t)
  with assms have "t = s'" by simp
  with passes_Continue [OF Continue] show ?thesis by simp
next
  case (Break t)
  with assms have t: "t = s'" by simp
  from passes_Break [OF Break] obtain m s1 where
    1: "passes env i s m = Continue s1" and 2: "loop_body (env (i + m)) s1 = Break t" by blast
  from passes_Continue [OF 1] have "attempt s1 \<le> attempt s" by simp
  moreover from loop_body_Break [OF 2] have "attempt t = attempt s1" by simp
  ultimately show ?thesis using t by simp
qed

lemma state_of_passes_mono:
  assumes "i \<le> j"
    and "state_of (passes env 0 s0 i) = Some si"
    and "state_of (passes env 0 s0 j) = Some sj"
  shows "attempt sj \<le> attempt si"
proof -
  from assms(1) have j: "j = i + (j - i)" by simp
  have split: "passes env 0 s0 j =
      (case passes env 0 s0 i of Continue s' \<Rightarrow> passes env (0 + i) s' (j - i) | out \<Rightarrow> out)"
    by (subst j) (rule passes_add)
  show ?thesis
  proof (cases "passes env 0 s0 i")
    case (Raised ex)
    with assms(2) show ?thesis by simp
  next
    case (Break t)
    with split assms(2,3) show ?thesis by simp
  next
    case (Continue t)
    with assms(2) have t: "t = si" by simp
    from split Continue t have "passes env 0 s0 j = passes env i si (j - i)" by simp
    with assms(3) have "state_of (passes env i si (j - i)) = Some sj" by simp
    then show ?thesis by (rule state_of_passes_attempt)
  qed
qed

text \<open>
  Claim C5. The retry counter \<open>attempt\<close> is 3 when the loop starts, and of two states of
  one run the later one never has the larger counter: across all passes of the loop the
  counter is non-increasing (and so never above 3).
\<close>

theorem attempt_non_increasing:
  "attempt (initial_state now pg) = 3 \<and>
   (i \<le> j \<and> state_of (passes env 0 (initial_state now pg) i) = Some si \<and>
      state_of (passes env 0 (initial_state now pg) j) = Some sj
    \<longrightarrow> attempt sj \<le> attempt si \<and> attempt sj \<le> 3)"
proof -
  have a: "attempt (initial_state now pg) = 3" by (simp add: initial_state_def)
  show ?thesis
    using a state_of_passes_mono [of i j env "initial_state now pg" si sj]
      state_of_passes_attempt [of env 0 "initial_state now pg" j sj]
    by auto
qed

lemma loop_body_heights:
  "loop_body (pg\<lparr>scrollHeight := a, innerHeight := b\<rparr>) s = loop_body pg s"
  by (simp add: loop_body_def split: sum.splits)

lemma passes_heights:
  "passes (\<lambda>i. (env i)\<lparr>scrollHeight := h i, innerHeight := w i\<rparr>) i s k = passes env i s k"
  by (induction k arbitrary: i s) (simp_all add: loop_body_heights split: outcome.splits)

lemma scrape_loop_Some_iff:
  "scrape_loop env i s = Some r \<longleftrightarrow> (\<exists>k. ended (passes env i s k) = Some r)"
  using scrape_loop_passes passes_scrape_loop by blast

lemma scrape_loop_heights:
  "scrape_loop (\<lambda>i. (env i)\<lparr>scrollHeight := h i, innerHeight := w i\<rparr>) i s = scrape_loop env i s"
proof -
  have "\<And>r. scrape_loop (\<lambda>i. (env i)\<lparr>scrollHeight := h i, innerHeight := w i\<rparr>) i s = Some r
      \<longleftrightarrow> scrape_loop env i s = Some r"
    by (simp add: scrape_loop_Some_iff passes_heights)
  then show ?thesis
    by (cases "scrape_loop env i s") (auto simp: option.exhaust)
qed

lemma state_of_passes_frame:
  assumes "state_of (passes env i s k) = Some s'"
  shows "same_frame s s'"
proof (cases "passes env i s k")
  case (Raised ex)
  with assms show ?thesis by simp
next
  case (Continue t)
  with assms passes_Continue [OF Continue] show ?thesis by simp
next
  case (Break t)
  with assms have t: "t = s'" by simp
  from passes_Break [OF Break] obtain m s1 where
    1: "passes env i s m = Continue s1" and 2: "loop_body (env (i + m)) s1 = Break t" by blast
  from passes_Continue [OF 1] loop_body_Break [OF 2] t show ?thesis
    by (auto intro: same_frame_trans)
qed

text \<open>
  Claim C10. \<open>page_height\<close> and \<open>window_height\<close> are read once before the loop and no
  pass assigns them: in every state of the run they are the values read at the start, the
  test of line 68 compares the scroll position with these two values, and the result of
  the run is the same whatever \<open>document.body.scrollHeight\<close> and \<open>window.innerHeight\<close>
  become in the page during the loop.
\<close>

theorem heights_read_once:
  "(state_of (passes (readings b) 0 (initial_state now pg) k) = Some s \<longrightarrow>
      page_height s = scrollHeight pg \<and> window_height s = innerHeight pg \<and>
      bottom_reached s (readings b k) =
        (case scrollY (readings b k) of Inl ex \<Rightarrow> False | Inr y \<Rightarrow> y + innerHeight pg \<ge> scrollHeight pg))
   \<and> scrape_data now (b\<lparr>readings := \<lambda>i. (readings b i)\<lparr>scrollHeight := h i, innerHeight := w i\<rparr>\<rparr>)
       = scrape_data now b"
proof -
  have 1: "state_of (passes (readings b) 0 (initial_state now pg) k) = Some s \<longrightarrow>
      page_height s = scrollHeight pg \<and> window_height s = innerHeight pg"
    using state_of_passes_frame [of "readings b" 0 "initial_state now pg" k s]
    by (auto simp: same_frame_def initial_state_def)
  have 2: "scrape_data now (b\<lparr>readings := \<lambda>i. (readings b i)\<lparr>scrollHeight := h i, innerHeight := w i\<rparr>\<rparr>)
       = scrape_data now b"
    by (simp add: scrape_data_def scrape_loop_heights split: sum.splits option.splits)
  from 1 2 show ?thesis by (auto simp: bottom_reached_def split: sum.splits)
qed

lemma run_break_initial:
  assumes "\<forall>j\<le>k. responsive (env j)"
    and "bottom_count (initial_state now pg) env k = 3"
    and "bottom_reached (initial_state now pg) (env k)"
  shows "\<exists>s rows. scrape_loop env 0 (initial_state now pg) = Some (Inr s) \<and>
           passes env 0 (initial_state now pg) (Suc k) = Break s \<and>
           wheel_log s = 300 # replicate (Suc k) 500 \<and> attempt s = 0 \<and>
           scraped_data s = [(''Scraping at'' @ strftime now, [(''data_list'', rows)])]"
proof -
  let ?s0 = "initial_state now pg"
  have a: "int (length (filter (\<lambda>j. bottom_reached ?s0 (env j)) [0..<0 + k])) = attempt ?s0"
    using assms(2) by (simp add: bottom_count_def initial_state_def)
  have r0: "\<forall>j\<le>k. responsive (env (0 + j))" using assms(1) by simp
  have b0: "bottom_reached ?s0 (env (0 + k))" using assms(3) by simp
  from run_break [OF initial_rows_inv r0 a b0]
  obtain s ys where b: "passes env 0 ?s0 (Suc k) = Break s" and f: "same_frame ?s0 s"
    and w: "wheel_log s = wheel_log ?s0 @ replicate (Suc k) (distance ?s0)"
    and z: "attempt s = 0" and r: "rows_inv s ([] @ ys)"
    by blast
  from b have "ended (passes env 0 ?s0 (Suc k)) = Some (Inr s)" by simp
  then have l: "scrape_loop env 0 ?s0 = Some (Inr s)" by (rule scrape_loop_passes)
  have d: "date s = ''Scraping at'' @ strftime now"
    using f by (simp add: same_frame_def initial_state_def)
  have "scraped_data s = [(''Scraping at'' @ strftime now, [(''data_list'', ys)])]"
    using r d by (simp add: rows_inv_def)
  moreover have "wheel_log s = 300 # replicate (Suc k) 500"
    using w by (simp add: initial_state_def)
  ultimately show ?thesis using l b z by blast
qed

lemma bottom_count_first_at:
  assumes "\<forall>j<n. \<not> bottom_reached s (env j)"
    and "\<forall>j. n \<le> j \<and> j < n + m \<longrightarrow> bottom_reached s (env j)"
  shows "bottom_count s env (n + m) = m"
proof -
  have "[0..<n + m] = [0..<n] @ [n..<n + m]" by (rule upt_add_eq_append) simp
  moreover have "filter (\<lambda>j. bottom_reached s (env j)) [0..<n] = []"
    using assms(1) by (simp add: filter_empty_conv)
  moreover have "filter (\<lambda>j. bottom_reached s (env j)) [n..<n + m] = [n..<n + m]"
    using assms(2) by (simp add: filter_id_conv)
  ultimately show ?thesis by (simp add: bottom_count_def)
qed

text \<open>
  Claim C2, as amended. If the test of line 68 first holds in pass \<open>n\<close> (counted from 0)
  and holds in the three passes after it, and no browser call raises, the loop ends by
  \<open>break\<close> in pass \<open>n + 3\<close>: after the warm-up wheel call it has issued \<open>n + 1\<close> wheel
  calls up to and including the one that first detected the bottom, and exactly 3 more
  after it. Four passes read the bottom in all: the first detection and three retries.
\<close>

theorem scrolls_after_bottom:
  assumes "\<forall>j<n + 4. responsive (env j)"
    and "\<forall>j<n. \<not> bottom_reached (initial_state now pg) (env j)"
    and "\<forall>j. n \<le> j \<and> j < n + 4 \<longrightarrow> bottom_reached (initial_state now pg) (env j)"
  shows "\<exists>s. scrape_loop env 0 (initial_state now pg) = Some (Inr s) \<and>
           wheel_log s = 50 * 6 # replicate (n + 1) 500 @ replicate 3 500"
proof -
  have "\<forall>j. n \<le> j \<and> j < n + 3 \<longrightarrow> bottom_reached (initial_state now pg) (env j)"
    using assms(3) by simp
  from bottom_count_first_at [OF assms(2) this]
  have c: "bottom_count (initial_state now pg) env (n + 3) = 3" .
  have r: "\<forall>j\<le>n + 3. responsive (env j)" using assms(1) by simp
  have b: "bottom_reached (initial_state now pg) (env (n + 3))" using assms(3) by simp
  from run_break_initial [OF r c b] obtain s where
    "scrape_loop env 0 (initial_state now pg) = Some (Inr s)"
    and w: "wheel_log s = 300 # replicate (Suc (n + 3)) 500" by blast
  moreover have "replicate (Suc (n + 3)) (500::int) = replicate (n + 1) 500 @ replicate 3 500"
    by (simp only: replicate_add [symmetric]) simp
  ultimately show ?thesis by simp
qed

lemma passes_Continue_attempt_nonneg:
  "0 \<le> attempt s0 \<Longrightarrow> passes env i s0 k = Continue s \<Longrightarrow> 0 \<le> attempt s"
proof (induction k arbitrary: s)
  case 0
  then show ?case by simp
next
  case (Suc k)
  from Suc.prems(2) obtain s1 where 1: "passes env i s0 k = Continue s1"
    and 2: "loop_body (env (i + k)) s1 = Continue s"
    by (auto simp: passes_Suc_end simp del: passes.simps(2) split: outcome.splits)
  from Suc.IH [OF Suc.prems(1) 1] have "0 \<le> attempt s1" .
  with loop_body_Continue [OF 2] show ?case by (auto split: if_splits)
qed

lemma bottom_count_Suc:
  "bottom_count s env (Suc k) = bottom_count s env k + (if bottom_reached s (env k) then 1 else 0)"
  by (simp add: bottom_count_def)

lemma bottom_count_mono:
  "m \<le> k \<Longrightarrow> bottom_count s env m \<le> bottom_count s env k"
  by (induction k) (auto simp: bottom_count_Suc le_Suc_eq)

lemma continue_count:
  assumes "passes env 0 (initial_state now pg) k = Continue s"
  shows "attempt s = 3 - int (bottom_count (initial_state now pg) env k) \<and>
         bottom_count (initial_state now pg) env k \<le> 3"
proof -
  have a: "attempt s = 3 - int (bottom_count (initial_state now pg) env k)"
    using passes_Continue [OF assms] by (simp add: bottom_count_def initial_state_def)
  have "0 \<le> attempt (initial_state now pg)" by (simp add: initial_state_def)
  from passes_Continue_attempt_nonneg [OF this assms] have "0 \<le> attempt s" .
  with a show ?thesis by simp
qed

lemma break_count:
  assumes "passes env 0 (initial_state now pg) m = Continue s1"
    and "loop_body (env m) s1 = Break s2"
  shows "attempt s1 = 0 \<and> attempt s2 = 0 \<and> bottom_count (initial_state now pg) env (Suc m) = 4"
proof -
  from continue_count [OF assms(1)]
  have a: "attempt s1 = 3 - int (bottom_count (initial_state now pg) env m)"
    and c: "bottom_count (initial_state now pg) env m \<le> 3" by simp_all
  from loop_body_Break [OF assms(2)] have b: "bottom_reached s1 (env m)"
    and z: "attempt s1 \<le> 0" and e: "attempt s2 = attempt s1" by simp_all
  from passes_Continue [OF assms(1)] have "same_frame (initial_state now pg) s1" by simp
  from bottom_reached_frame [OF this] b have b0: "bottom_reached (initial_state now pg) (env m)"
    by simp
  from a c z have 3: "bottom_count (initial_state now pg) env m = 3" by simp
  with a e b0 show ?thesis by (simp add: bottom_count_Suc)
qed

lemma state_count:
  assumes "state_of (passes env 0 (initial_state now pg) n) = Some s"
  shows "attempt s = max 0 (3 - int (bottom_count (initial_state now pg) env n))"
proof (cases "passes env 0 (initial_state now pg) n")
  case (Raised ex)
  with assms show ?thesis by simp
next
  case (Continue t)
  with assms have "t = s" by simp
  with continue_count [OF Continue] show ?thesis by simp
next
  case (Break t)
  with assms have t: "t = s" by simp
  from passes_Break [OF Break] obtain m s1 where m: "m < n"
    and 1: "passes env 0 (initial_state now pg) m = Continue s1"
    and 2: "loop_body (env (0 + m)) s1 = Break t" by blast
  from 2 have "loop_body (env m) s1 = Break t" by simp
  from break_count [OF 1 this] have z: "attempt t = 0"
    and c: "bottom_count (initial_state now pg) env (Suc m) = 4" by simp_all
  from m have "Suc m \<le> n" by simp
  from bottom_count_mono [OF this, of "initial_state now pg" env] c
  have "4 \<le> bottom_count (initial_state now pg) env n" by simp
  with z t show ?thesis by simp
qed

text \<open>
  Claim C3, as amended. The retry counter is never reset within a run. A pass in which the
  test of line 68 fails never breaks the loop and leaves the counter as it is; a pass in
  which the test holds lowers the counter by one when the loop goes on and leaves it as it
  is when the loop breaks. So while the loop runs, the counter after \<open>k\<close> passes is 3 minus
  the number of passes in which the test held, which is at most 3; the pass that breaks is
  the fourth in which the test holds, and it finds and leaves the counter at 0; in every
  state of a run the counter is the larger of 0 and 3 minus the number of passes so far in
  which the test held, whatever happened to the document in the passes between.
\<close>

theorem attempt_counts_bottoms:
  "(passes env 0 (initial_state now pg) k = Continue s \<longrightarrow>
      attempt s = 3 - int (bottom_count (initial_state now pg) env k) \<and>
      bottom_count (initial_state now pg) env k \<le> 3)
   \<and> (passes env 0 (initial_state now pg) m = Continue s1 \<and> loop_body (env m) s1 = Break s2 \<longrightarrow>
      attempt s1 = 0 \<and> attempt s2 = 0 \<and> bottom_count (initial_state now pg) env (Suc m) = 4)
   \<and> (state_of (passes env 0 (initial_state now pg) n) = Some s3 \<longrightarrow>
      attempt s3 = max 0 (3 - int (bottom_count (initial_state now pg) env n)))
   \<and> (loop_body pg' t = Continue t' \<longrightarrow>
      attempt t' = attempt t - (if bottom_reached t pg' then 1 else 0))
   \<and> (loop_body pg'' u = Break u' \<longrightarrow>
      bottom_reached u pg'' \<and> attempt u \<le> 0 \<and> attempt u' = attempt u)"
proof -
  have 1: "passes env 0 (initial_state now pg) k = Continue s \<longrightarrow>
      attempt s = 3 - int (bottom_count (initial_state now pg) env k) \<and>
      bottom_count (initial_state now pg) env k \<le> 3"
    using continue_count [of env now pg k s] by blast
  have 2: "passes env 0 (initial_state now pg) m = Continue s1 \<and> loop_body (env m) s1 = Break s2 \<longrightarrow>
      attempt s1 = 0 \<and> attempt s2 = 0 \<and> bottom_count (initial_state now pg) env (Suc m) = 4"
    using break_count [of env now pg m s1 s2] by blast
  have 3: "state_of (passes env 0 (initial_state now pg) n) = Some s3 \<longrightarrow>
      attempt s3 = max 0 (3 - int (bottom_count (initial_state now pg) env n))"
    using state_count [of env now pg n s3] by blast
  have 4: "loop_body pg' t = Continue t' \<longrightarrow>
      attempt t' = attempt t - (if bottom_reached t pg' then 1 else 0)"
    using loop_body_Continue [of pg' t t'] by (auto split: if_splits)
  have 5: "loop_body pg'' u = Break u' \<longrightarrow>
      bottom_reached u pg'' \<and> attempt u \<le> 0 \<and> attempt u' = attempt u"
    using loop_body_Break [of pg'' u u'] by blast
  from 1 2 3 4 5 show ?thesis by blast
qed

section \<open>The result of a run\<close>

lemma offered_Cons:
  "offered (r # rs) =
     (case chain_link_count r of
        Inl ex \<Rightarrow> offered rs
      | Inr n \<Rightarrow>
          (if n > 0 then (case extract_data_from_row r of None \<Rightarrow> offered rs | Some c \<Rightarrow> c # offered rs)
           else offered rs))"
  by (simp add: offered_def List.map_filter_simps split: sum.splits option.splits)

lemma first_offers_names_fresh:
  "e \<in> set (first_offers seen cs) \<Longrightarrow> Name e \<noteq> NA \<and> Name e \<notin> seen"
  by (induction cs arbitrary: seen) (auto split: if_splits)

lemma first_offers_append:
  "first_offers seen (xs @ ys) =
     first_offers seen xs @ first_offers (seen \<union> set (map Name (first_offers seen xs))) ys"
  by (induction xs arbitrary: seen) auto

lemma first_offers_find:
  "e \<in> set (first_offers seen cs) \<Longrightarrow> find (\<lambda>c. Name c = Name e) cs = Some e"
proof (induction cs arbitrary: seen)
  case Nil
  then show ?case by simp
next
  case (Cons c cs)
  show ?case
  proof (cases "Name c \<noteq> NA \<and> Name c \<notin> seen")
    case True
    with Cons.prems have "e = c \<or> e \<in> set (first_offers (insert (Name c) seen) cs)" by simp
    then show ?thesis
    proof
      assume "e = c"
      then show ?thesis by simp
    next
      assume m: "e \<in> set (first_offers (insert (Name c) seen) cs)"
      from first_offers_names_fresh [OF m] have "Name c \<noteq> Name e" by auto
      with Cons.IH [OF m] show ?thesis by simp
    qed
  next
    case False
    with Cons.prems have m: "e \<in> set (first_offers seen cs)" by simp
    from first_offers_names_fresh [OF m] False have "Name c \<noteq> Name e" by auto
    with Cons.IH [OF m] show ?thesis by simp
  qed
qed

lemma remdups_snoc:
  "remdups (xs @ [x]) = remdups (filter (\<lambda>y. y \<noteq> x) xs) @ [x]"
  by (induction xs) auto

lemma first_offers_names:
  "map Name (first_offers seen cs) =
     rev (remdups (rev (filter (\<lambda>n. n \<noteq> NA \<and> n \<notin> seen) (map Name cs))))"
proof (induction cs arbitrary: seen)
  case Nil
  then show ?case by simp
next
  case (Cons c cs)
  show ?case
  proof (cases "Name c \<noteq> NA \<and> Name c \<notin> seen")
    case True
    let ?P = "\<lambda>n. n \<noteq> NA \<and> n \<notin> seen"
    let ?ns = "map Name cs"
    have "rev (remdups (rev (filter ?P (Name c # ?ns)))) =
          rev (remdups (rev (filter ?P ?ns) @ [Name c]))"
      using True by simp
    also have "\<dots> = Name c # rev (remdups (rev (filter (\<lambda>x. x \<noteq> Name c) (filter ?P ?ns))))"
      by (simp add: remdups_snoc rev_filter)
    also have "filter (\<lambda>x. x \<noteq> Name c) (filter ?P ?ns) =
          filter (\<lambda>n. n \<noteq> NA \<and> n \<notin> insert (Name c) seen) ?ns"
      by (auto intro: filter_cong)
    finally show ?thesis using True Cons.IH [of "insert (Name c) seen"] by simp
  next
    case False
    then show ?thesis using Cons.IH [of seen] by auto
  qed
qed

lemma process_rows_first_offers:
  "rows_inv s rows \<Longrightarrow> process_rows rs s = Inr s' \<Longrightarrow>
     rows_inv s' (rows @ first_offers (unique_names s) (offered rs))"
proof (induction rs arbitrary: s rows)
  case Nil
  then show ?case by (simp add: offered_def List.map_filter_simps)
next
  case (Cons r rs)
  from Cons.prems(2) obtain s1 where 1: "process_row r s = Inr s1" and 2: "process_rows rs s1 = Inr s'"
    by (auto split: sum.splits)
  from 1 obtain n where n: "chain_link_count r = Inr n"
    by (auto simp: process_row_def split: sum.splits)
  show ?case
  proof (cases "n > 0 \<and> admitted s (extract_data_from_row r)")
    case True
    then obtain c where c: "extract_data_from_row r = Some c"
      and adm: "Name c \<noteq> NA \<and> Name c \<notin> unique_names s"
      by (auto simp: admitted_def split: option.splits)
    from 1 n True have o: "offer (extract_data_from_row r) s = Inr s1"
      by (simp add: process_row_def)
    from offer_rows_inv [OF Cons.prems(1), of "extract_data_from_row r"] o True c
    have i1: "rows_inv s1 (rows @ [c])" by auto
    then have u: "unique_names s1 = insert (Name c) (unique_names s)"
      using Cons.prems(1) by (auto simp: rows_inv_def)
    from Cons.IH [OF i1 2] have "rows_inv s' ((rows @ [c]) @ first_offers (unique_names s1) (offered rs))" .
    moreover have "offered (r # rs) = c # offered rs"
      using n True c by (simp add: offered_Cons)
    ultimately show ?thesis using adm u by simp
  next
    case False
    have i1: "rows_inv s1 rows"
    proof (cases "n > 0")
      case True
      with 1 n have o: "offer (extract_data_from_row r) s = Inr s1" by (simp add: process_row_def)
      from offer_rows_inv [OF Cons.prems(1), of "extract_data_from_row r"] o False True
      show ?thesis by auto
    next
      case False
      with 1 n have "s1 = s" by (simp add: process_row_def)
      with Cons.prems(1) show ?thesis by simp
    qed
    then have u: "unique_names s1 = unique_names s"
      using Cons.prems(1) by (simp add: rows_inv_def)
    have "first_offers (unique_names s) (offered (r # rs)) = first_offers (unique_names s) (offered rs)"
      using n False by (auto simp: offered_Cons admitted_def split: option.splits)
    with Cons.IH [OF i1 2] u show ?thesis by simp
  qed
qed

lemma loop_body_first_offers:
  assumes "rows_inv s rows" and "loop_body pg s = Continue s' \<or> loop_body pg s = Break s'"
  shows "\<exists>rs. visible_rows pg = Inr rs \<and>
           rows_inv s' (rows @ first_offers (unique_names s) (offered rs))"
proof -
  from assms(2) obtain rs s1 y where
    r: "visible_rows pg = Inr rs" and p: "process_rows rs s = Inr s1" and y: "scrollY pg = Inr y"
    by (auto simp: loop_body_def split: sum.splits)
  from process_rows_first_offers [OF assms(1) p]
  have i: "rows_inv s1 (rows @ first_offers (unique_names s) (offered rs))" .
  from assms(2) have "scraped_data s' = scraped_data s1 \<and> unique_names s' = unique_names s1
      \<and> date s' = date s1"
    by (auto simp: loop_body_def r p y Let_def split: if_splits)
  with i have "rows_inv s' (rows @ first_offers (unique_names s) (offered rs))"
    by (simp add: rows_inv_def)
  with r show ?thesis by blast
qed

lemma offered_upto_Suc:
  "visible_rows (env k) = Inr rs \<Longrightarrow> offered_upto env (Suc k) = offered_upto env k @ offered rs"
  by (simp add: offered_upto_def)

lemma step_first_offers:
  assumes "rows_inv s (first_offers {} (offered_upto env k))"
    and "loop_body (env k) s = Continue s' \<or> loop_body (env k) s = Break s'"
  shows "rows_inv s' (first_offers {} (offered_upto env (Suc k)))"
proof -
  let ?R = "first_offers {} (offered_upto env k)"
  from loop_body_first_offers [OF assms] obtain rs where r: "visible_rows (env k) = Inr rs"
    and i: "rows_inv s' (?R @ first_offers (unique_names s) (offered rs))" by blast
  have u: "unique_names s = {} \<union> set (map Name ?R)" using assms(1) by (simp add: rows_inv_def)
  have "first_offers {} (offered_upto env (Suc k)) = ?R @ first_offers (unique_names s) (offered rs)"
    unfolding offered_upto_Suc [of env k rs, OF r] first_offers_append u ..
  with i show ?thesis by simp
qed

lemma passes_first_offers:
  "passes env 0 (initial_state now pg) k = Continue s \<Longrightarrow>
     rows_inv s (first_offers {} (offered_upto env k))"
proof (induction k arbitrary: s)
  case 0
  then show ?case using initial_rows_inv [of now pg] by (simp add: offered_upto_def)
next
  case (Suc k)
  from Suc.prems obtain s1 where 1: "passes env 0 (initial_state now pg) k = Continue s1"
    and 2: "loop_body (env (0 + k)) s1 = Continue s"
    by (auto simp: passes_Suc_end simp del: passes.simps(2) split: outcome.splits)
  from step_first_offers [OF Suc.IH [OF 1], of s] 2 show ?case by simp
qed

lemma scrape_data_result:
  assumes "scrape_data now b = Some (Inr result)"
  shows "\<exists>pg k s. startup b = Inr pg \<and>
           passes (readings b) 0 (initial_state now pg) k = Break s \<and> result = scraped_data s"
proof -
  from assms obtain pg s where p: "startup b = Inr pg"
    and l: "scrape_loop (readings b) 0 (initial_state now pg) = Some (Inr s)"
    and r: "result = scraped_data s"
    by (auto simp: scrape_data_def split: sum.splits option.splits)
  from passes_scrape_loop [OF l] obtain k where
    "ended (passes (readings b) 0 (initial_state now pg) k) = Some (Inr s)" by blast
  then have "passes (readings b) 0 (initial_state now pg) k = Break s"
    by (cases "passes (readings b) 0 (initial_state now pg) k") auto
  with p r show ?thesis by blast
qed

lemma reached_rows_inv:
  assumes "state_of (passes env 0 (initial_state now pg) k) = Some s"
  shows "\<exists>rows. rows_inv s rows \<and> date s = ''Scraping at'' @ strftime now"
proof -
  from assms have "passes env 0 (initial_state now pg) k = Continue s
      \<or> passes env 0 (initial_state now pg) k = Break s"
    by (cases "passes env 0 (initial_state now pg) k") auto
  from passes_rows_inv [OF initial_rows_inv this] obtain ys where "rows_inv s ([] @ ys)" by blast
  moreover from state_of_passes_frame [OF assms] have "date s = ''Scraping at'' @ strftime now"
    by (simp add: same_frame_def initial_state_def)
  ultimately show ?thesis by blast
qed

lemma scrape_data_shape:
  assumes "scrape_data now b = Some (Inr result)"
  shows "\<exists>rows. result = [(''Scraping at'' @ strftime now, [(''data_list'', rows)])] \<and>
           distinct (map Name rows) \<and> NA \<notin> set (map Name rows)"
proof -
  from scrape_data_result [OF assms] obtain pg k s where
    b: "passes (readings b) 0 (initial_state now pg) k = Break s" and r: "result = scraped_data s"
    by blast
  from b have "state_of (passes (readings b) 0 (initial_state now pg) k) = Some s" by simp
  from reached_rows_inv [OF this] obtain rows where "rows_inv s rows"
    and "date s = ''Scraping at'' @ strftime now" by blast
  with r show ?thesis by (auto simp: rows_inv_def)
qed

lemma strftime_four_digit_year:
  assumes "1000 \<le> year now"
  shows "strftime now =
     [''0123456789'' ! (year now div 1000 mod 10), ''0123456789'' ! (year now div 100 mod 10),
      ''0123456789'' ! (year now div 10 mod 10), ''0123456789'' ! (year now mod 10), CHR ''-'',
      ''0123456789'' ! (month now div 10 mod 10), ''0123456789'' ! (month now mod 10), CHR ''-'',
      ''0123456789'' ! (day now div 10 mod 10), ''0123456789'' ! (day now mod 10), CHR '' '',
      ''0123456789'' ! (hour now div 10 mod 10), ''0123456789'' ! (hour now mod 10), CHR '':'',
      ''0123456789'' ! (minute now div 10 mod 10), ''0123456789'' ! (minute now mod 10), CHR '':'',
      ''0123456789'' ! (second now div 10 mod 10), ''0123456789'' ! (second now mod 10)]"
  using assms by (simp add: strftime_def year_digits_def pad2_def pad4_def digit_def)

text \<open>
  Claim C1. The mapping a run returns holds, under its one label, a \<open>data_list\<close> in which
  no two entries have the same \<open>Name\<close> and no entry has the \<open>Name\<close> \<open>"N/A"\<close>. In every
  state the loop reaches, between passes or between the rows of a pass, the set of seen
  names is the set of the names in the list, and an extracted row offered there is
  appended if and only if its \<open>Name\<close> is not \<open>"N/A"\<close> and not in that set; otherwise the
  list stays as it is.
\<close>

theorem no_duplicates_no_sentinel:
  "(scrape_data now b = Some (Inr result) \<longrightarrow>
      (\<exists>rows. result = [(''Scraping at'' @ strftime now, [(''data_list'', rows)])] \<and>
         distinct (map Name rows) \<and> ''N/A'' \<notin> set (map Name rows)))
   \<and> (passes env 0 (initial_state now pg) k = Continue s0 \<and> process_rows rs s0 = Inr s \<longrightarrow>
      (\<exists>rows s'. data_list s = Inr rows \<and> distinct (map Name rows) \<and>
         ''N/A'' \<notin> set (map Name rows) \<and> unique_names s = set (map Name rows) \<and>
         offer (Some c) s = Inr s' \<and>
         data_list s' =
           Inr (if Name c \<noteq> ''N/A'' \<and> Name c \<notin> unique_names s then rows @ [c] else rows)))"
proof -
  have 1: "scrape_data now b = Some (Inr result) \<longrightarrow>
      (\<exists>rows. result = [(''Scraping at'' @ strftime now, [(''data_list'', rows)])] \<and>
         distinct (map Name rows) \<and> ''N/A'' \<notin> set (map Name rows))"
    using scrape_data_shape [of now b result] by (simp add: NA_def)
  have 2: "\<exists>rows s'. data_list s = Inr rows \<and> distinct (map Name rows) \<and>
         ''N/A'' \<notin> set (map Name rows) \<and> unique_names s = set (map Name rows) \<and>
         offer (Some c) s = Inr s' \<and>
         data_list s' =
           Inr (if Name c \<noteq> ''N/A'' \<and> Name c \<notin> unique_names s then rows @ [c] else rows)"
    if a: "passes env 0 (initial_state now pg) k = Continue s0" and p: "process_rows rs s0 = Inr s"
  proof -
    from a have "state_of (passes env 0 (initial_state now pg) k) = Some s0" by simp
    from reached_rows_inv [OF this] obtain rows0 where "rows_inv s0 rows0" by blast
    from process_rows_rows_inv [OF this p] obtain ys where i: "rows_inv s (rows0 @ ys)" by blast
    let ?rows = "rows0 @ ys"
    from offer_rows_inv [OF i, of "Some c"] obtain s' where o: "offer (Some c) s = Inr s'"
      and i': "rows_inv s' (if admitted s (Some c) then ?rows @ [the (Some c)] else ?rows)" by blast
    have d: "data_list s = Inr ?rows" using i by (simp add: rows_inv_def data_list_shaped)
    have d': "data_list s' = Inr (if admitted s (Some c) then ?rows @ [c] else ?rows)"
      using i' by (simp add: rows_inv_def data_list_shaped split: if_splits)
    have "admitted s (Some c) = (Name c \<noteq> ''N/A'' \<and> Name c \<notin> unique_names s)"
      by (simp add: admitted_def NA_def)
    with d d' o i show ?thesis by (auto simp: rows_inv_def NA_def)
  qed
  from 1 2 show ?thesis by blast
qed

lemma never_four_bottoms:
  assumes "startup b = Inr pg"
    and "\<forall>j. responsive (readings b j)"
    and "\<forall>k. bottom_count (initial_state now pg) (readings b) k \<le> 3"
  shows "scrape_data now b = None"
proof -
  have "scrape_loop (readings b) 0 (initial_state now pg) = None"
  proof (cases "scrape_loop (readings b) 0 (initial_state now pg)")
    case None
    then show ?thesis .
  next
    case (Some r)
    from passes_scrape_loop [OF Some] obtain k where
      e: "ended (passes (readings b) 0 (initial_state now pg) k) = Some r" by blast
    have r: "\<forall>j<k. responsive (readings b (0 + j))" using assms(2) by simp
    have c: "int (length (filter (\<lambda>j. bottom_reached (initial_state now pg) (readings b j))
        [0..<0 + k])) \<le> attempt (initial_state now pg)"
      using assms(3) [rule_format, of k] by (simp add: bottom_count_def initial_state_def)
    from run_continue [OF initial_rows_inv r c] obtain s where
      "passes (readings b) 0 (initial_state now pg) k = Continue s" by blast
    with e show ?thesis by simp
  qed
  with assms(1) show ?thesis by (simp add: scrape_data_def)
qed

text \<open>
  Claim C8, as amended. A run that returns hands back one mapping with a single key, the
  words \<open>Scraping at\<close> followed at once, with no space between, by the timestamp of the run
  in the format \<open>%Y-%m-%d %H:%M:%S\<close> (for a year from 1000 on: four digits of the year,
  a dash, two of the month, a dash, two of the day, a space, and hour, minute and second
  in two digits each with colons between); its value is the mapping of the single key
  \<open>data_list\<close> to the list of rows. A run returns such a mapping when the browser starts
  and closes, no pass raises, and the test of line 68 holds for the fourth time in some
  pass. A run in which no pass raises and the test never holds a fourth time returns
  nothing.
\<close>

theorem one_result_mapping:
  "(scrape_data now b = Some (Inr result) \<longrightarrow>
      (\<exists>rows. result = [(''Scraping at'' @ strftime now, [(''data_list'', rows)])]))
   \<and> (valid_datetime now \<and> 1000 \<le> year now \<longrightarrow>
      strftime now =
        [''0123456789'' ! (year now div 1000 mod 10), ''0123456789'' ! (year now div 100 mod 10),
         ''0123456789'' ! (year now div 10 mod 10), ''0123456789'' ! (year now mod 10), CHR ''-'',
         ''0123456789'' ! (month now div 10 mod 10), ''0123456789'' ! (month now mod 10), CHR ''-'',
         ''0123456789'' ! (day now div 10 mod 10), ''0123456789'' ! (day now mod 10), CHR '' '',
         ''0123456789'' ! (hour now div 10 mod 10), ''0123456789'' ! (hour now mod 10), CHR '':'',
         ''0123456789'' ! (minute now div 10 mod 10), ''0123456789'' ! (minute now mod 10), CHR '':'',
         ''0123456789'' ! (second now div 10 mod 10), ''0123456789'' ! (second now mod 10)])
   \<and> (startup b = Inr pg \<and> close b = Inr () \<and> (\<forall>j\<le>k. responsive (readings b j)) \<and>
       bottom_count (initial_state now pg) (readings b) k = 3 \<and>
       bottom_reached (initial_state now pg) (readings b k) \<longrightarrow>
      (\<exists>rows. scrape_data now b =
         Some (Inr [(''Scraping at'' @ strftime now, [(''data_list'', rows)])])))
   \<and> (startup b = Inr pg \<and> (\<forall>j. responsive (readings b j)) \<and>
       (\<forall>k. bottom_count (initial_state now pg) (readings b) k \<le> 3) \<longrightarrow>
      scrape_data now b = None)"
proof -
  have 1: "scrape_data now b = Some (Inr result) \<longrightarrow>
      (\<exists>rows. result = [(''Scraping at'' @ strftime now, [(''data_list'', rows)])])"
    using scrape_data_shape [of now b result] by blast
  have 2: "\<exists>rows. scrape_data now b =
         Some (Inr [(''Scraping at'' @ strftime now, [(''data_list'', rows)])])"
    if "startup b = Inr pg" and "close b = Inr ()" and "\<forall>j\<le>k. responsive (readings b j)"
      and "bottom_count (initial_state now pg) (readings b) k = 3"
      and "bottom_reached (initial_state now pg) (readings b k)"
  proof -
    from run_break_initial [OF that(3,4,5)] obtain s rows where
      "scrape_loop (readings b) 0 (initial_state now pg) = Some (Inr s)"
      and "scraped_data s = [(''Scraping at'' @ strftime now, [(''data_list'', rows)])]" by blast
    with that(1,2) show ?thesis by (simp add: scrape_data_def)
  qed
  have 3: "scrape_data now b = None"
    if "startup b = Inr pg" and "\<forall>j. responsive (readings b j)"
      and "\<forall>k. bottom_count (initial_state now pg) (readings b) k \<le> 3"
    using that by (rule never_four_bottoms)
  from 1 2 3 strftime_four_digit_year [of now] show ?thesis by blast
qed

text \<open>
  Claim C4. After any pass of the loop (the last one included) the names in \<open>data_list\<close>
  are the names other than \<open>"N/A"\<close> of the rows offered so far, each once, in the order of
  their first occurrences, and each entry is the first offered row that carries its name.
  Offering a row whose name is already in the list changes nothing at all.
\<close>

theorem first_occurrence_order:
  "(passes env 0 (initial_state now pg) k = Continue s1 \<and>
      (loop_body (env k) s1 = Continue s \<or> loop_body (env k) s1 = Break s) \<longrightarrow>
      (\<exists>rows. data_list s = Inr rows \<and>
         map Name rows =
           rev (remdups (rev (filter (\<lambda>n. n \<noteq> ''N/A'') (map Name (offered_upto env (Suc k)))))) \<and>
         (\<forall>e\<in>set rows. find (\<lambda>c. Name c = Name e) (offered_upto env (Suc k)) = Some e)))
   \<and> (passes env 0 (initial_state now pg) k = Continue s1 \<and> process_rows rs s1 = Inr t \<and>
      data_list t = Inr rows' \<and> Name c \<in> set (map Name rows') \<longrightarrow> offer (Some c) t = Inr t)"
proof -
  have 1: "\<exists>rows. data_list s = Inr rows \<and>
         map Name rows =
           rev (remdups (rev (filter (\<lambda>n. n \<noteq> ''N/A'') (map Name (offered_upto env (Suc k)))))) \<and>
         (\<forall>e\<in>set rows. find (\<lambda>c. Name c = Name e) (offered_upto env (Suc k)) = Some e)"
    if a: "passes env 0 (initial_state now pg) k = Continue s1"
      and l: "loop_body (env k) s1 = Continue s \<or> loop_body (env k) s1 = Break s"
  proof -
    let ?R = "first_offers {} (offered_upto env (Suc k))"
    from step_first_offers [OF passes_first_offers [OF a] l] have i: "rows_inv s ?R" .
    then have "data_list s = Inr ?R" by (simp add: rows_inv_def data_list_shaped)
    moreover have "map Name ?R =
        rev (remdups (rev (filter (\<lambda>n. n \<noteq> ''N/A'') (map Name (offered_upto env (Suc k))))))"
      by (simp add: first_offers_names NA_def)
    moreover have "\<forall>e\<in>set ?R. find (\<lambda>c. Name c = Name e) (offered_upto env (Suc k)) = Some e"
      using first_offers_find by blast
    ultimately show ?thesis by blast
  qed
  have 2: "offer (Some c) t = Inr t"
    if a: "passes env 0 (initial_state now pg) k = Continue s1" and p: "process_rows rs s1 = Inr t"
      and d: "data_list t = Inr rows'" and n: "Name c \<in> set (map Name rows')"
  proof -
    from a have "state_of (passes env 0 (initial_state now pg) k) = Some s1" by simp
    from reached_rows_inv [OF this] obtain rows0 where "rows_inv s1 rows0" by blast
    from process_rows_rows_inv [OF this p] obtain ys where i: "rows_inv t (rows0 @ ys)" by blast
    then have "data_list t = Inr (rows0 @ ys)" by (simp add: rows_inv_def data_list_shaped)
    with d have "rows' = rows0 @ ys" by simp
    with i n have "Name c \<in> unique_names t" by (simp add: rows_inv_def)
    then show ?thesis by (simp add: offer_def)
  qed
  from 1 2 show ?thesis by blast
qed

text \<open>
  Claim C7. When the output file holds a JSON value that is not a list, \<open>main\<close> takes it
  as a prior state of one element, appends the batch of the run, and the write leaves the
  file holding the list of these two.
\<close>

theorem single_object_coerced:
  assumes "scrape_data now b = Some (Inr scraped_result)"
    and "\<forall>xs. existing_data \<noteq> JList xs"
  shows "load_existing (Holds existing_data) = [existing_data] \<and>
         main now b (Holds existing_data) Written =
           Some (Holds (JList [existing_data, scraped_json scraped_result])) \<and>
         length (load_existing (Holds existing_data) @ [scraped_json scraped_result]) = 2"
proof -
  have "load_existing (Holds existing_data) = [existing_data]"
    using assms(2) by (cases existing_data) (simp_all add: load_existing_def)
  then show ?thesis using assms(1) by (simp add: main_def)
qed

section \<open>Configuration\<close>

text \<open>
  Claim C9. A configuration file that gives only \<open>proxy_settings.enabled\<close> is loaded
  without the default \<open>server\<close>, \<open>username\<close> and \<open>password\<close>: line 141 replaces the
  whole default \<open>proxy_settings\<close> dictionary by the one of the file, and the merge of
  lines 142-143, which is there to keep the defaults, then merges that dictionary with
  itself.
\<close>

theorem load_config_partial_proxy:
  "load_config (ConfigObject [(''proxy_settings'', JObj [(''enabled'', JBool True)])])
     = [(''interval_minutes'', JNum 5), (''proxy_settings'', JObj [(''enabled'', JBool True)])]"
  by (simp add: load_config_def dict_update_def default_config_def)

section \<open>Worked examples\<close>

lemmas example_defs = cell_def chain_row_def listed_def window_def start_page_def two_windows_def
  two_windows_browser_def settled_page_def growing_page_def unending_page_def
  unending_browser_def noon_def noon_label_def
  example_state_def

lemmas run_defs = initial_state_def loop_body_def process_row_def offer_def
  data_list_append_def extract_data_from_row_def read_cell_def strip_def isspace_def NA_def
  strftime_def year_digits_def pad2_def pad4_def digit_def

lemma noon_start: "initial_state noon start_page = example_state [] 3 0"
  by (simp add: example_defs run_defs)

lemma nat_2: "(2::nat) = Suc (Suc 0)" by simp
lemma nat_3: "(3::nat) = Suc (Suc (Suc 0))" by simp
lemma nat_4: "(4::nat) = Suc (Suc (Suc (Suc 0)))" by simp
lemma nat_5: "(5::nat) = Suc (Suc (Suc (Suc (Suc 0))))" by simp

lemma two_windows_after_1:
  "passes two_windows 0 (initial_state noon start_page) 1 =
     Continue (example_state [listed ''A'', listed ''B''] 3 1)"
  by (simp add: example_defs run_defs insert_commute)

lemma two_windows_after_2:
  "passes two_windows 0 (initial_state noon start_page) 2 =
     Continue (example_state [listed ''A'', listed ''B'', listed ''C''] 2 2)"
  unfolding nat_2 by (simp add: example_defs run_defs insert_commute)

lemma two_windows_after_3:
  "passes two_windows 0 (initial_state noon start_page) 3 =
     Continue (example_state [listed ''A'', listed ''B'', listed ''C''] 1 3)"
  unfolding nat_3 by (simp add: example_defs run_defs insert_commute)

lemma two_windows_after_5:
  "passes two_windows 0 (initial_state noon start_page) 5 =
     Break (example_state [listed ''A'', listed ''B'', listed ''C''] 0 5)"
  unfolding nat_5 by (simp add: example_defs run_defs insert_commute)

lemma two_windows_run:
  "scrape_data noon two_windows_browser =
     Some (Inr [(noon_label, [(''data_list'', [listed ''A'', listed ''B'', listed ''C''])])])"
proof -
  have "ended (passes two_windows 0 (initial_state noon start_page) 5) =
      Some (Inr (example_state [listed ''A'', listed ''B'', listed ''C''] 0 5))"
    by (simp add: two_windows_after_5)
  then have "scrape_loop two_windows 0 (initial_state noon start_page) =
      Some (Inr (example_state [listed ''A'', listed ''B'', listed ''C''] 0 5))"
    by (rule scrape_loop_passes)
  then show ?thesis
    by (simp add: scrape_data_def two_windows_browser_def example_state_def)
qed

lemma noon_label_eq: "''Scraping at'' @ strftime noon = noon_label"
  by (simp add: example_defs run_defs)

lemma settled_page_after_4:
  "passes settled_page 0 (initial_state noon start_page) 4 = Break (example_state [] 0 4)"
  unfolding nat_4 by (simp add: example_defs run_defs)

lemma growing_page_after_1:
  "passes growing_page 0 (initial_state noon start_page) 1 = Continue (example_state [] 2 1)"
  by (simp add: example_defs run_defs)

lemma growing_page_after_2:
  "passes growing_page 0 (initial_state noon start_page) 2 = Continue (example_state [] 1 2)"
  unfolding nat_2 by (simp add: example_defs run_defs)

lemma growing_page_after_3:
  "passes growing_page 0 (initial_state noon start_page) 3 = Continue (example_state [] 0 3)"
  unfolding nat_3 by (simp add: example_defs run_defs)

lemma growing_page_after_4:
  "passes growing_page 0 (initial_state noon start_page) 4 = Break (example_state [] 0 4)"
  unfolding nat_4 by (simp add: example_defs run_defs)

theorem attempt_non_increasing_witness:
  "state_of (passes two_windows 0 (initial_state noon start_page) 1)
     = Some (example_state [listed ''A'', listed ''B''] 3 1) \<and>
   state_of (passes two_windows 0 (initial_state noon start_page) 3)
     = Some (example_state [listed ''A'', listed ''B'', listed ''C''] 1 3) \<and>
   attempt (example_state [listed ''A'', listed ''B'', listed ''C''] 1 3)
     \<le> attempt (example_state [listed ''A'', listed ''B''] 3 1)"
proof -
  have 1: "state_of (passes two_windows 0 (initial_state noon start_page) 1)
     = Some (example_state [listed ''A'', listed ''B''] 3 1)"
    by (simp only: two_windows_after_1 state_of.simps)
  have 3: "state_of (passes two_windows 0 (initial_state noon start_page) 3)
     = Some (example_state [listed ''A'', listed ''B'', listed ''C''] 1 3)"
    by (simp only: two_windows_after_3 state_of.simps)
  have le: "(1::nat) \<le> 3" by simp
  from attempt_non_increasing [where now = noon and pg = start_page and i = 1 and j = 3
      and env = two_windows and si = "example_state [listed ''A'', listed ''B''] 3 1"
      and sj = "example_state [listed ''A'', listed ''B'', listed ''C''] 1 3"] le 1 3
  show ?thesis by blast
qed

theorem heights_read_once_witness:
  "state_of (passes (readings two_windows_browser) 0 (initial_state noon start_page) 2)
     = Some (example_state [listed ''A'', listed ''B'', listed ''C''] 2 2) \<and>
   page_height (example_state [listed ''A'', listed ''B'', listed ''C''] 2 2) = scrollHeight start_page \<and>
   window_height (example_state [listed ''A'', listed ''B'', listed ''C''] 2 2) = innerHeight start_page \<and>
   scrape_data noon
     (two_windows_browser\<lparr>readings :=
        \<lambda>i. (readings two_windows_browser i)\<lparr>scrollHeight := 9000, innerHeight := 100\<rparr>\<rparr>)
     = scrape_data noon two_windows_browser"
proof -
  have 2: "state_of (passes (readings two_windows_browser) 0 (initial_state noon start_page) 2)
     = Some (example_state [listed ''A'', listed ''B'', listed ''C''] 2 2)"
    by (simp only: two_windows_browser_def browser.simps two_windows_after_2 state_of.simps)
  note t = heights_read_once [where b = two_windows_browser and now = noon and pg = start_page
      and k = 2 and s = "example_state [listed ''A'', listed ''B'', listed ''C''] 2 2"
      and h = "\<lambda>i. 9000" and w = "\<lambda>i. 100"]
  note a = t [THEN conjunct1, THEN mp, OF 2]
  show ?thesis
    by (rule conjI [OF 2 conjI [OF a [THEN conjunct1]
          conjI [OF a [THEN conjunct2, THEN conjunct1] t [THEN conjunct2]]]])
qed

text \<open>
  Claim C2 fails as stated. On a page where the first scroll of the loop already reads the
  bottom and the document never grows, the loop ends after the wheel calls
  300 (warm-up), 500, 500, 500, 500: three scrolls follow the one that first detected the
  bottom, not four.
\<close>

theorem scrolls_after_bottom_counterexample:
  "bottom_reached (initial_state noon start_page) (settled_page 0) \<and>
   map_option (map_sum id wheel_log) (scrape_loop settled_page 0 (initial_state noon start_page))
     = Some (Inr [300, 500, 500, 500, 500])"
proof -
  have "ended (passes settled_page 0 (initial_state noon start_page) 4)
      = Some (Inr (example_state [] 0 4))"
    by (simp only: settled_page_after_4 ended.simps)
  then have "scrape_loop settled_page 0 (initial_state noon start_page)
      = Some (Inr (example_state [] 0 4))"
    by (rule scrape_loop_passes)
  moreover have "bottom_reached (initial_state noon start_page) (settled_page 0)"
    by (simp add: bottom_reached_def example_defs initial_state_def)
  ultimately show ?thesis unfolding nat_4 by (simp add: example_state_def)
qed

theorem scrolls_after_bottom_witness:
  "map_option (map_sum id wheel_log) (scrape_loop two_windows 0 (initial_state noon start_page))
     = Some (Inr [300, 500, 500, 500, 500, 500])"
proof -
  have r: "\<forall>j<1 + 4. responsive (two_windows j)"
    by (simp add: responsive_def example_defs)
  have n: "\<forall>j<1. \<not> bottom_reached (initial_state noon start_page) (two_windows j)"
    by (simp add: bottom_reached_def example_defs initial_state_def)
  have b: "\<forall>j. 1 \<le> j \<and> j < 1 + 4 \<longrightarrow> bottom_reached (initial_state noon start_page) (two_windows j)"
    by (simp add: bottom_reached_def example_defs initial_state_def)
  from scrolls_after_bottom [OF r n b] obtain s where
    "scrape_loop two_windows 0 (initial_state noon start_page) = Some (Inr s)"
    and "wheel_log s = 50 * 6 # replicate (1 + 1) 500 @ replicate 3 500" by blast
  then show ?thesis by (simp add: nat_2 nat_3)
qed

text \<open>
  Claim C3 fails as stated. The first scroll of the loop reads the bottom; the document
  then grows by more than one window, and the second scroll is not at the bottom of the
  grown document. The counter still goes from 2 to 1 in that pass, goes to 0 (not back to
  3) in the third pass, where the bottom is read again, and the loop ends in the fourth.
\<close>

theorem attempt_counts_bottoms_counterexample:
  "scrollY (growing_page 0) = Inr 600 \<and>
   scrollHeight (growing_page 0) \<le> 600 + innerHeight (growing_page 0) \<and>
   scrollHeight (growing_page 1) \<ge> scrollHeight (growing_page 0) + innerHeight (growing_page 0) \<and>
   scrollY (growing_page 1) = Inr 1100 \<and>
   1100 + innerHeight (growing_page 1) < scrollHeight (growing_page 1) \<and>
   scrollY (growing_page 2) = Inr 1700 \<and>
   scrollHeight (growing_page 2) \<le> 1700 + innerHeight (growing_page 2) \<and>
   map_option attempt (state_of (passes growing_page 0 (initial_state noon start_page) 1)) = Some 2 \<and>
   map_option attempt (state_of (passes growing_page 0 (initial_state noon start_page) 2)) = Some 1 \<and>
   map_option attempt (state_of (passes growing_page 0 (initial_state noon start_page) 3)) = Some 0 \<and>
   map_option (map_sum id wheel_log) (scrape_loop growing_page 0 (initial_state noon start_page))
     = Some (Inr [300, 500, 500, 500, 500])"
proof -
  have "ended (passes growing_page 0 (initial_state noon start_page) 4)
      = Some (Inr (example_state [] 0 4))"
    by (simp only: growing_page_after_4 ended.simps)
  then have "scrape_loop growing_page 0 (initial_state noon start_page)
      = Some (Inr (example_state [] 0 4))"
    by (rule scrape_loop_passes)
  then have "map_option (map_sum id wheel_log) (scrape_loop growing_page 0 (initial_state noon start_page))
     = Some (Inr [300, 500, 500, 500, 500])"
    unfolding nat_4 by (simp add: example_state_def)
  moreover have "map_option attempt (state_of (passes growing_page 0 (initial_state noon start_page) 1)) = Some 2"
    by (simp only: growing_page_after_1) (simp add: example_state_def)
  moreover have "map_option attempt (state_of (passes growing_page 0 (initial_state noon start_page) 2)) = Some 1"
    by (simp only: growing_page_after_2) (simp add: example_state_def)
  moreover have "map_option attempt (state_of (passes growing_page 0 (initial_state noon start_page) 3)) = Some 0"
    by (simp only: growing_page_after_3) (simp add: example_state_def)
  moreover have "scrollY (growing_page 0) = Inr 600 \<and>
   scrollHeight (growing_page 0) \<le> 600 + innerHeight (growing_page 0) \<and>
   scrollHeight (growing_page 1) \<ge> scrollHeight (growing_page 0) + innerHeight (growing_page 0) \<and>
   scrollY (growing_page 1) = Inr 1100 \<and>
   1100 + innerHeight (growing_page 1) < scrollHeight (growing_page 1) \<and>
   scrollY (growing_page 2) = Inr 1700 \<and>
   scrollHeight (growing_page 2) \<le> 1700 + innerHeight (growing_page 2)"
    by (simp add: growing_page_def window_def)
  ultimately show ?thesis by blast
qed

theorem attempt_counts_bottoms_witness:
  "passes growing_page 0 (initial_state noon start_page) 2 = Continue (example_state [] 1 2) \<and>
   bottom_count (initial_state noon start_page) growing_page 2 = 2 \<and>
   attempt (example_state [] 1 2) = 3 - int (bottom_count (initial_state noon start_page) growing_page 2) \<and>
   passes growing_page 0 (initial_state noon start_page) 3 = Continue (example_state [] 0 3) \<and>
   loop_body (growing_page 3) (example_state [] 0 3) = Break (example_state [] 0 4) \<and>
   attempt (example_state [] 0 3) = 0 \<and> attempt (example_state [] 0 4) = 0 \<and>
   bottom_count (initial_state noon start_page) growing_page (Suc 3) = 4 \<and>
   bottom_reached (example_state [] 0 3) (growing_page 3) \<and>
   state_of (passes growing_page 0 (initial_state noon start_page) 4) = Some (example_state [] 0 4) \<and>
   attempt (example_state [] 0 4) =
     max 0 (3 - int (bottom_count (initial_state noon start_page) growing_page 4)) \<and>
   loop_body (window [] 100 1100) (example_state [] 1 2) = Continue (example_state [] 1 3) \<and>
   attempt (example_state [] 1 3) =
     attempt (example_state [] 1 2) -
       (if bottom_reached (example_state [] 1 2) (window [] 100 1100) then 1 else 0)"
proof -
  have c: "bottom_count (initial_state noon start_page) growing_page 2 = 2"
    by (simp add: bottom_count_def bottom_reached_def example_defs initial_state_def nat_2)
  have l: "loop_body (window [] 100 1100) (example_state [] 1 2) = Continue (example_state [] 1 3)"
    unfolding nat_2 nat_3 by (simp add: example_defs run_defs)
  have b: "loop_body (growing_page 3) (example_state [] 0 3) = Break (example_state [] 0 4)"
    unfolding nat_3 nat_4 by (simp add: example_defs run_defs)
  have s4: "state_of (passes growing_page 0 (initial_state noon start_page) 4)
      = Some (example_state [] 0 4)"
    by (simp only: growing_page_after_4 state_of.simps)
  note t = attempt_counts_bottoms [where env = growing_page and now = noon and pg = start_page
      and k = 2 and s = "example_state [] 1 2"
      and m = 3 and ?s1.0 = "example_state [] 0 3" and ?s2.0 = "example_state [] 0 4"
      and n = 4 and ?s3.0 = "example_state [] 0 4"
      and pg' = "window [] 100 1100" and t = "example_state [] 1 2" and t' = "example_state [] 1 3"
      and pg'' = "growing_page 3" and u = "example_state [] 0 3" and u' = "example_state [] 0 4"]
  from t growing_page_after_2
  have 1: "attempt (example_state [] 1 2) =
      3 - int (bottom_count (initial_state noon start_page) growing_page 2)" by blast
  from t growing_page_after_3 b
  have 2: "attempt (example_state [] 0 3) = 0 \<and> attempt (example_state [] 0 4) = 0 \<and>
      bottom_count (initial_state noon start_page) growing_page (Suc 3) = 4" by blast
  from t s4
  have 3: "attempt (example_state [] 0 4) =
      max 0 (3 - int (bottom_count (initial_state noon start_page) growing_page 4))" by blast
  from t l
  have 4: "attempt (example_state [] 1 3) =
     attempt (example_state [] 1 2) -
       (if bottom_reached (example_state [] 1 2) (window [] 100 1100) then 1 else 0)" by blast
  from t b have 5: "bottom_reached (example_state [] 0 3) (growing_page 3)" by blast
  from growing_page_after_2 c 1 growing_page_after_3 b 2 5 s4 3 l 4 show ?thesis by blast
qed

lemma example_data_list: "data_list (example_state rows a n) = Inr rows"
  by (simp add: data_list_def example_state_def)

theorem no_duplicates_no_sentinel_witness:
  "scrape_data noon two_windows_browser =
     Some (Inr [(noon_label, [(''data_list'', [listed ''A'', listed ''B'', listed ''C''])])]) \<and>
   distinct (map Name [listed ''A'', listed ''B'', listed ''C'']) \<and>
   ''N/A'' \<notin> set (map Name [listed ''A'', listed ''B'', listed ''C'']) \<and>
   passes two_windows 0 (initial_state noon start_page) 1 =
     Continue (example_state [listed ''A'', listed ''B''] 3 1) \<and>
   process_rows [chain_row ''A ''] (example_state [listed ''A'', listed ''B''] 3 1) =
     Inr (example_state [listed ''A'', listed ''B''] 3 1) \<and>
   (\<exists>s'. offer (Some (listed ''C'')) (example_state [listed ''A'', listed ''B''] 3 1) = Inr s' \<and>
      data_list s' = Inr [listed ''A'', listed ''B'', listed ''C''])"
proof -
  let ?S = "example_state [listed ''A'', listed ''B''] 3 1"
  let ?R = "[(noon_label, [(''data_list'', [listed ''A'', listed ''B'', listed ''C''])])]"
  have p: "process_rows [chain_row ''A ''] ?S = Inr ?S"
    by (simp add: example_defs run_defs)
  note t = no_duplicates_no_sentinel [where now = noon and b = two_windows_browser
      and result = ?R and env = two_windows and pg = start_page and k = 1 and ?s0.0 = ?S
      and rs = "[chain_row ''A '']" and s = ?S and c = "listed ''C''"]
  from t two_windows_run obtain rows where "?R = [(''Scraping at'' @ strftime noon, [(''data_list'', rows)])]"
    and d: "distinct (map Name rows)" and n: "''N/A'' \<notin> set (map Name rows)" by blast
  then have "rows = [listed ''A'', listed ''B'', listed ''C'']" by simp
  with d n have 1: "distinct (map Name [listed ''A'', listed ''B'', listed ''C''])"
    and 2: "''N/A'' \<notin> set (map Name [listed ''A'', listed ''B'', listed ''C''])" by simp_all
  from t two_windows_after_1 p obtain rows' s' where dl: "data_list ?S = Inr rows'"
    and o: "offer (Some (listed ''C'')) ?S = Inr s'"
    and dl': "data_list s' =
      Inr (if Name (listed ''C'') \<noteq> ''N/A'' \<and> Name (listed ''C'') \<notin> unique_names ?S
           then rows' @ [listed ''C''] else rows')" by blast
  from dl have "rows' = [listed ''A'', listed ''B'']" by (simp add: example_data_list)
  with dl' have "data_list s' = Inr [listed ''A'', listed ''B'', listed ''C'']"
    by (simp add: example_state_def listed_def)
  with o have 3: "\<exists>s'. offer (Some (listed ''C'')) ?S = Inr s' \<and>
      data_list s' = Inr [listed ''A'', listed ''B'', listed ''C'']" by blast
  from two_windows_run 1 2 two_windows_after_1 p 3 show ?thesis by blast
qed

lemma two_windows_offered:
  "offered_upto two_windows (Suc 1) = [listed ''A'', listed ''B'', listed ''A'', listed ''C'']"
  by (simp add: offered_upto_def offered_def List.map_filter_simps example_defs run_defs)

theorem first_occurrence_order_witness:
  "offered_upto two_windows (Suc 1) = [listed ''A'', listed ''B'', listed ''A'', listed ''C''] \<and>
   passes two_windows 0 (initial_state noon start_page) 1 =
     Continue (example_state [listed ''A'', listed ''B''] 3 1) \<and>
   loop_body (two_windows 1) (example_state [listed ''A'', listed ''B''] 3 1) =
     Continue (example_state [listed ''A'', listed ''B'', listed ''C''] 2 2) \<and>
   data_list (example_state [listed ''A'', listed ''B'', listed ''C''] 2 2) =
     Inr [listed ''A'', listed ''B'', listed ''C''] \<and>
   map Name [listed ''A'', listed ''B'', listed ''C''] =
     rev (remdups (rev (filter (\<lambda>n. n \<noteq> ''N/A'') (map Name (offered_upto two_windows (Suc 1)))))) \<and>
   find (\<lambda>c. Name c = Name (listed ''A'')) (offered_upto two_windows (Suc 1)) = Some (listed ''A'') \<and>
   offer (Some (listed ''A'')) (example_state [listed ''A'', listed ''B''] 3 1) =
     Inr (example_state [listed ''A'', listed ''B''] 3 1)"
proof -
  let ?S1 = "example_state [listed ''A'', listed ''B''] 3 1"
  let ?S2 = "example_state [listed ''A'', listed ''B'', listed ''C''] 2 2"
  have l: "loop_body (two_windows 1) ?S1 = Continue ?S2"
    unfolding nat_2 by (simp add: example_defs run_defs insert_commute)
  have p: "process_rows [] ?S1 = Inr ?S1" by simp
  have m: "Name (listed ''A'') \<in> set (map Name [listed ''A'', listed ''B''])" by simp
  note t = first_occurrence_order [where env = two_windows and now = noon and pg = start_page
      and k = 1 and ?s1.0 = ?S1 and s = ?S2 and rs = "[]" and t = ?S1
      and rows' = "[listed ''A'', listed ''B'']" and c = "listed ''A''"]
  from t two_windows_after_1 l obtain rows where dl: "data_list ?S2 = Inr rows"
    and n: "map Name rows =
      rev (remdups (rev (filter (\<lambda>n. n \<noteq> ''N/A'') (map Name (offered_upto two_windows (Suc 1))))))"
    and f: "\<forall>e\<in>set rows. find (\<lambda>c. Name c = Name e) (offered_upto two_windows (Suc 1)) = Some e"
    by blast
  from dl have r: "rows = [listed ''A'', listed ''B'', listed ''C'']" by (simp add: example_data_list)
  from f r have 1: "find (\<lambda>c. Name c = Name (listed ''A'')) (offered_upto two_windows (Suc 1))
      = Some (listed ''A'')" by simp
  from n r have 2: "map Name [listed ''A'', listed ''B'', listed ''C''] =
      rev (remdups (rev (filter (\<lambda>n. n \<noteq> ''N/A'') (map Name (offered_upto two_windows (Suc 1))))))"
    by simp
  from t two_windows_after_1 p m example_data_list [of "[listed ''A'', listed ''B'']" 3 1]
  have 3: "offer (Some (listed ''A'')) ?S1 = Inr ?S1" by blast
  from two_windows_offered two_windows_after_1 l example_data_list [of "[listed ''A'', listed ''B'', listed ''C'']" 2 2]
    2 1 3
  show ?thesis by blast
qed

theorem single_object_coerced_witness:
  "load_existing (Holds (JObj [(''earlier'', JNum 1)])) = [JObj [(''earlier'', JNum 1)]] \<and>
   main noon two_windows_browser (Holds (JObj [(''earlier'', JNum 1)])) Written =
     Some (Holds (JList [JObj [(''earlier'', JNum 1)],
       scraped_json [(noon_label, [(''data_list'', [listed ''A'', listed ''B'', listed ''C''])])]]))"
proof -
  have "\<forall>xs. JObj [(''earlier'', JNum 1)] \<noteq> JList xs" by simp
  from single_object_coerced [OF two_windows_run this] show ?thesis by blast
qed

lemma unending_page_run: "scrape_data noon unending_browser = None"
proof (rule never_four_bottoms)
  show "startup unending_browser = Inr start_page" by (simp add: unending_browser_def)
  show "\<forall>j. responsive (readings unending_browser j)"
    by (simp add: responsive_def example_defs)
  have "\<And>k. bottom_count (initial_state noon start_page) (readings unending_browser) k = 0"
    by (simp add: bottom_count_def bottom_reached_def example_defs initial_state_def)
  then show "\<forall>k. bottom_count (initial_state noon start_page) (readings unending_browser) k \<le> 3"
    by simp
qed

text \<open>
  Claim C8 fails as stated. The run over the two windows at noon of 4 July 2025 returns
  the key \<open>Scraping at2025-07-04 12:00:00\<close>, which is not the words, a space and the
  timestamp; and the run on a page whose scrolls never reach the bottom returns nothing,
  so not every run produces a mapping.
\<close>

theorem one_result_mapping_counterexample:
  "scrape_data noon two_windows_browser =
     Some (Inr [(''Scraping at2025-07-04 12:00:00'',
                 [(''data_list'', [listed ''A'', listed ''B'', listed ''C''])])]) \<and>
   ''Scraping at2025-07-04 12:00:00'' \<noteq> ''Scraping at 2025-07-04 12:00:00'' \<and>
   scrape_data noon two_windows_browser \<noteq>
     Some (Inr [(''Scraping at 2025-07-04 12:00:00'',
                 [(''data_list'', [listed ''A'', listed ''B'', listed ''C''])])]) \<and>
   scrape_data noon unending_browser = None"
  using two_windows_run unending_page_run by (simp add: noon_label_def)

theorem one_result_mapping_witness:
  "scrape_data noon two_windows_browser =
     Some (Inr [(noon_label, [(''data_list'', [listed ''A'', listed ''B'', listed ''C''])])]) \<and>
   noon_label = ''Scraping at'' @ strftime noon \<and>
   strftime noon = ''2025-07-04 12:00:00'' \<and>
   bottom_count (initial_state noon start_page) (readings two_windows_browser) 4 = 3 \<and>
   bottom_reached (initial_state noon start_page) (readings two_windows_browser 4) \<and>
   (\<exists>rows. scrape_data noon two_windows_browser =
      Some (Inr [(''Scraping at'' @ strftime noon, [(''data_list'', rows)])])) \<and>
   scrape_data noon unending_browser = None"
proof -
  have s: "startup two_windows_browser = Inr start_page" and c: "close two_windows_browser = Inr ()"
    by (simp_all add: two_windows_browser_def)
  have r: "\<forall>j\<le>4. responsive (readings two_windows_browser j)"
    by (simp add: responsive_def example_defs)
  have bc: "bottom_count (initial_state noon start_page) (readings two_windows_browser) 4 = 3"
    by (simp add: bottom_count_def bottom_reached_def example_defs initial_state_def nat_4)
  have b: "bottom_reached (initial_state noon start_page) (readings two_windows_browser 4)"
    by (simp add: bottom_reached_def example_defs initial_state_def)
  have y: "valid_datetime noon \<and> 1000 \<le> year noon"
    by (simp add: valid_datetime_def noon_def)
  note t = one_result_mapping [where now = noon and b = two_windows_browser and pg = start_page
      and k = 4]
  from t s c r bc b have 1: "\<exists>rows. scrape_data noon two_windows_browser =
      Some (Inr [(''Scraping at'' @ strftime noon, [(''data_list'', rows)])])" by blast
  from t y have "strftime noon =
        [''0123456789'' ! (year noon div 1000 mod 10), ''0123456789'' ! (year noon div 100 mod 10),
         ''0123456789'' ! (year noon div 10 mod 10), ''0123456789'' ! (year noon mod 10), CHR ''-'',
         ''0123456789'' ! (month noon div 10 mod 10), ''0123456789'' ! (month noon mod 10), CHR ''-'',
         ''0123456789'' ! (day noon div 10 mod 10), ''0123456789'' ! (day noon mod 10), CHR '' '',
         ''0123456789'' ! (hour noon div 10 mod 10), ''0123456789'' ! (hour noon mod 10), CHR '':'',
         ''0123456789'' ! (minute noon div 10 mod 10), ''0123456789'' ! (minute noon mod 10), CHR '':'',
         ''0123456789'' ! (second noon div 10 mod 10), ''0123456789'' ! (second noon mod 10)]"
    by blast
  then have 2: "strftime noon = ''2025-07-04 12:00:00''" by (simp add: noon_def)
  have u: "startup unending_browser = Inr start_page"
    and ur: "\<forall>j. responsive (readings unending_browser j)"
    by (simp_all add: responsive_def example_defs)
  have "\<And>k. bottom_count (initial_state noon start_page) (readings unending_browser) k = 0"
    by (simp add: bottom_count_def bottom_reached_def example_defs initial_state_def)
  then have uc: "\<forall>k. bottom_count (initial_state noon start_page) (readings unending_browser) k \<le> 3"
    by simp
  from one_result_mapping [where now = noon and b = unending_browser and pg = start_page] u ur uc
  have 3: "scrape_data noon unending_browser = None" by blast
  from two_windows_run noon_label_eq [symmetric] 2 bc b 1 3 show ?thesis by blast
qed

end
